theory Spec2Isabelle
  imports Main
begin

section \<open>JavaScript strings\<close>

text \<open>
  A JavaScript string is a sequence of UTF-16 code units. A code unit is modelled by its
  integer value, so \<open>length\<close> counts what \<open>String.prototype.length\<close> counts.
  \<open>js\<close> turns an ASCII literal into such a sequence.
\<close>

type_synonym jschar = int
type_synonym jsstring = "jschar list"

definition js :: "string \<Rightarrow> jsstring" where
  "js s = map of_char s"

text \<open>
  ECMAScript WhiteSpace and LineTerminator code points: what \<open>String.prototype.trim\<close>
  strips and what the regular-expression class \<open>\s\<close> matches.
\<close>

definition is_ws :: "jschar \<Rightarrow> bool" where
  "is_ws c \<longleftrightarrow>
     c = 9 \<or> c = 10 \<or> c = 11 \<or> c = 12 \<or> c = 13 \<or> c = 32 \<or> c = 160 \<or> c = 5760
     \<or> (8192 \<le> c \<and> c \<le> 8202)
     \<or> c = 8232 \<or> c = 8233 \<or> c = 8239 \<or> c = 8287 \<or> c = 12288 \<or> c = 65279"

definition trim :: "jsstring \<Rightarrow> jsstring" where
  "trim s = rev (dropWhile is_ws (rev (dropWhile is_ws s)))"

definition is_lt :: "jschar \<Rightarrow> bool" where
  \<comment> \<open>ECMAScript LineTerminator: what \<open>.\<close> refuses and where \<open>^\<close> and \<open>$\<close> anchor under \<open>/m\<close>\<close>
  "is_lt c \<longleftrightarrow> c = 10 \<or> c = 13 \<or> c = 8232 \<or> c = 8233"

definition endsWith :: "jsstring \<Rightarrow> jsstring \<Rightarrow> bool" where
  "endsWith s suf \<longleftrightarrow> length suf \<le> length s \<and> drop (length s - length suf) s = suf"

fun js_includes :: "jsstring \<Rightarrow> jsstring \<Rightarrow> bool" where
  "js_includes [] sub \<longleftrightarrow> sub = []"
| "js_includes (c # cs) sub \<longleftrightarrow> take (length sub) (c # cs) = sub \<or> js_includes cs sub"

text \<open>\<open>s.split('\n')\<close> and \<open>xs.join(sep)\<close>.\<close>

fun split_nl :: "jsstring \<Rightarrow> jsstring list" where
  "split_nl [] = [[]]"
| "split_nl (c # cs) =
     (if c = 10 then [] # split_nl cs
      else (case split_nl cs of
              [] \<Rightarrow> [[c]]
            | l # ls \<Rightarrow> (c # l) # ls))"

fun join :: "jsstring \<Rightarrow> jsstring list \<Rightarrow> jsstring" where
  "join sep [] = []"
| "join sep [x] = x"
| "join sep (x # y # ys) = x @ sep @ join sep (y # ys)"

section \<open>Regular expressions\<close>

text \<open>
  The patterns of the program are ECMAScript regular expressions. A pattern is written as a
  term of \<open>regex\<close>; \<open>rmatch r st\<close> lists, in the priority order of the backtracking matcher of
  the ECMAScript specification, every state in which \<open>r\<close> can end when started in \<open>st\<close>. The
  match the engine reports is the head of that list. A state holds the input before the
  current position (nearest code unit first), the input from the position on, and the text
  of capture group 1.
\<close>

datatype mstate = MState (before: jsstring) (rest: jsstring) (cap1: "jsstring option")

datatype regex =
    Eps
  | Chr "jschar \<Rightarrow> bool"
  | Seq regex regex
  | Alt regex regex
  | Star regex
  | LazyStar regex
  | Opt regex
  | Group regex
  | Bol bool
  | Eol bool
  | Ahead regex
  | NotAhead regex
  | NotBehind "jschar \<Rightarrow> bool"

text \<open>
  \<open>Star\<close> is the greedy \<open>*\<close> and \<open>LazyStar\<close> is \<open>*?\<close>; an iteration that consumes nothing is
  rejected, as RepeatMatcher does. \<open>Bol m\<close> and \<open>Eol m\<close> are \<open>^\<close> and \<open>$\<close>, with \<open>m\<close> the
  multiline flag. \<open>Ahead\<close>, \<open>NotAhead\<close> are \<open>(?=r)\<close>, \<open>(?!r)\<close> and \<open>NotBehind P\<close> is \<open>(?<!c)\<close>
  for a one-character class.
\<close>

function (sequential) rmatch :: "regex \<Rightarrow> mstate \<Rightarrow> mstate list" where
  "rmatch Eps st = [st]"
| "rmatch (Chr P) st =
     (case rest st of
        [] \<Rightarrow> []
      | c # cs \<Rightarrow> if P c then [MState (c # before st) cs (cap1 st)] else [])"
| "rmatch (Seq r1 r2) st = concat (map (rmatch r2) (rmatch r1 st))"
| "rmatch (Alt r1 r2) st = rmatch r1 st @ rmatch r2 st"
| "rmatch (Star r) st =
     concat (map (\<lambda>st'. if length (rest st') < length (rest st)
                          then rmatch (Star r) st' else [])
                 (rmatch r st)) @ [st]"
| "rmatch (LazyStar r) st =
     st # concat (map (\<lambda>st'. if length (rest st') < length (rest st)
                               then rmatch (LazyStar r) st' else [])
                      (rmatch r st))"
| "rmatch (Opt r) st = rmatch r st @ [st]"
| "rmatch (Group r) st =
     map (\<lambda>st'. MState (before st') (rest st')
                   (Some (take (length (rest st) - length (rest st')) (rest st))))
         (rmatch r st)"
| "rmatch (Bol m) st =
     (case before st of
        [] \<Rightarrow> [st]
      | c # _ \<Rightarrow> if m \<and> is_lt c then [st] else [])"
| "rmatch (Eol m) st =
     (case rest st of
        [] \<Rightarrow> [st]
      | c # _ \<Rightarrow> if m \<and> is_lt c then [st] else [])"
| "rmatch (Ahead r) st = (if rmatch r st = [] then [] else [st])"
| "rmatch (NotAhead r) st = (if rmatch r st = [] then [st] else [])"
| "rmatch (NotBehind P) st =
     (case before st of
        [] \<Rightarrow> [st]
      | c # _ \<Rightarrow> if P c then [] else [st])"
  by pat_completeness auto
termination
  by (relation "measures [\<lambda>(r, st). size r, \<lambda>(r, st). length (rest st)]") auto

text \<open>
  RegExpBuiltinExec from \<open>lastIndex\<close>: the leftmost position at which the pattern matches,
  as the input before the match (reversed) and the state the match ends in.
\<close>

fun exec_from :: "regex \<Rightarrow> jsstring \<Rightarrow> jsstring \<Rightarrow> (jsstring \<times> mstate) option" where
  "exec_from r b [] =
     (case rmatch r (MState b [] None) of
        [] \<Rightarrow> None
      | st # _ \<Rightarrow> Some (b, st))"
| "exec_from r b (c # cs) =
     (case rmatch r (MState b (c # cs) None) of
        [] \<Rightarrow> exec_from r (c # b) cs
      | st # _ \<Rightarrow> Some (b, st))"

definition test :: "regex \<Rightarrow> jsstring \<Rightarrow> bool" where
  "test r s \<longleftrightarrow> exec_from r [] s \<noteq> None"

text \<open>\<open>s.match(r)[1]\<close> for a pattern without the global flag; \<open>None\<close> when \<open>match\<close> is null.\<close>

definition match1 :: "regex \<Rightarrow> jsstring \<Rightarrow> jsstring option" where
  "match1 r s =
     (case exec_from r [] s of
        None \<Rightarrow> None
      | Some (b, st) \<Rightarrow> Some (case cap1 st of None \<Rightarrow> [] | Some x \<Rightarrow> x))"

text \<open>A replacement string: literal text and \<open>$1\<close>.\<close>

datatype rpart = RLit jsstring | RCap1

fun expand :: "rpart list \<Rightarrow> jsstring option \<Rightarrow> jsstring" where
  "expand [] cap = []"
| "expand (RLit x # ps) cap = x @ expand ps cap"
| "expand (RCap1 # ps) cap = (case cap of None \<Rightarrow> [] | Some x \<Rightarrow> x) @ expand ps cap"

text \<open>\<open>s.replace(r, repl)\<close> for a pattern without the global flag: the first match only.\<close>

definition replace_first :: "regex \<Rightarrow> rpart list \<Rightarrow> jsstring \<Rightarrow> jsstring" where
  "replace_first r rp s =
     (case exec_from r [] s of
        None \<Rightarrow> s
      | Some (b, st) \<Rightarrow> rev b @ expand rp (cap1 st) @ rest st)"

text \<open>
  \<open>s.replace(r, repl)\<close> for a pattern with the global flag: every match, left to right,
  the search resuming where the last match ended, one code unit further after an empty
  match.
\<close>

function replace_all_from :: "regex \<Rightarrow> rpart list \<Rightarrow> jsstring \<Rightarrow> jsstring \<Rightarrow> jsstring" where
  "replace_all_from r rp b [] =
     (case rmatch r (MState b [] None) of
        [] \<Rightarrow> []
      | st # _ \<Rightarrow> expand rp (cap1 st))"
| "replace_all_from r rp b (c # cs) =
     (case rmatch r (MState b (c # cs) None) of
        [] \<Rightarrow> c # replace_all_from r rp (c # b) cs
      | st # _ \<Rightarrow>
          if length (rest st) < length (c # cs)
          then expand rp (cap1 st) @ replace_all_from r rp (before st) (rest st)
          else expand rp (cap1 st) @ c # replace_all_from r rp (c # b) cs)"
  by pat_completeness auto
termination
  by (relation "measure (\<lambda>(r, rp, b, s). length s)") auto

definition replace_all :: "regex \<Rightarrow> rpart list \<Rightarrow> jsstring \<Rightarrow> jsstring" where
  "replace_all r rp s = replace_all_from r rp [] s"

subsection \<open>Writing patterns\<close>

text \<open>
  Canonicalize of the ECMAScript specification (patterns without the \<open>u\<close> flag), on the code
  units that can meet a character of this program's patterns: ASCII and Latin-1 letters
  go to upper case. The sharp s stays (its upper case is two code units), and a code unit
  from 128 on never canonicalizes to an ASCII one. No other code unit canonicalizes to the
  canonical form of a character written in a pattern here, so it is left as it is.
\<close>

definition canonicalize :: "jschar \<Rightarrow> jschar" where
  "canonicalize c =
     (if (97 \<le> c \<and> c \<le> 122) \<or> (224 \<le> c \<and> c \<le> 254 \<and> c \<noteq> 247) then c - 32 else c)"

definition chr :: "jschar \<Rightarrow> jschar \<Rightarrow> bool" where
  \<comment> \<open>a pattern character, without the \<open>i\<close> flag\<close>
  "chr p c \<longleftrightarrow> c = p"

definition ci :: "jschar \<Rightarrow> jschar \<Rightarrow> bool" where
  \<comment> \<open>a pattern character, under the \<open>i\<close> flag\<close>
  "ci p c \<longleftrightarrow> canonicalize c = canonicalize p"

definition starts_i :: "jsstring \<Rightarrow> jsstring \<Rightarrow> bool" where
  \<comment> \<open>\<open>s\<close> starts with the text \<open>p\<close>, letter case set aside as under the \<open>i\<close> flag\<close>
  "starts_i p s \<longleftrightarrow>
     length p \<le> length s \<and> map canonicalize (take (length p) s) = map canonicalize p"

definition any_cu :: "jschar \<Rightarrow> bool" where
  \<comment> \<open>\<open>[\s\S]\<close>\<close>
  "any_cu c \<longleftrightarrow> True"

definition dot :: "jschar \<Rightarrow> bool" where
  \<comment> \<open>\<open>.\<close>\<close>
  "dot c \<longleftrightarrow> \<not> is_lt c"

definition digit :: "jschar \<Rightarrow> bool" where
  \<comment> \<open>\<open>\d\<close>\<close>
  "digit c \<longleftrightarrow> 48 \<le> c \<and> c \<le> 57"

definition lower :: "jschar \<Rightarrow> bool" where
  \<comment> \<open>\<open>[a-z]\<close>\<close>
  "lower c \<longleftrightarrow> 97 \<le> c \<and> c \<le> 122"

definition upper :: "jschar \<Rightarrow> bool" where
  \<comment> \<open>\<open>[A-Z]\<close>\<close>
  "upper c \<longleftrightarrow> 65 \<le> c \<and> c \<le> 90"

definition one_of :: "jsstring \<Rightarrow> jschar \<Rightarrow> bool" where
  "one_of cs c \<longleftrightarrow> c \<in> set cs"

fun seqs :: "regex list \<Rightarrow> regex" where
  "seqs [] = Eps"
| "seqs (r # rs) = Seq r (seqs rs)"

definition lit :: "jsstring \<Rightarrow> regex" where
  "lit s = seqs (map (\<lambda>p. Chr (chr p)) s)"

definition lit_i :: "jsstring \<Rightarrow> regex" where
  "lit_i s = seqs (map (\<lambda>p. Chr (ci p)) s)"

definition Plus :: "regex \<Rightarrow> regex" where
  \<comment> \<open>\<open>r+\<close>\<close>
  "Plus r = Seq r (Star r)"

definition LazyPlus :: "regex \<Rightarrow> regex" where
  \<comment> \<open>\<open>r+?\<close>\<close>
  "LazyPlus r = Seq r (LazyStar r)"

fun rep_n :: "nat \<Rightarrow> regex \<Rightarrow> regex" where
  \<comment> \<open>\<open>r{n}\<close>\<close>
  "rep_n 0 r = Eps"
| "rep_n (Suc n) r = Seq r (rep_n n r)"

fun rep_upto :: "nat \<Rightarrow> regex \<Rightarrow> regex" where
  \<comment> \<open>\<open>r{0,n}\<close>\<close>
  "rep_upto 0 r = Eps"
| "rep_upto (Suc n) r = Opt (Seq r (rep_upto n r))"

definition AtLeast :: "nat \<Rightarrow> regex \<Rightarrow> regex" where
  \<comment> \<open>\<open>r{n,}\<close>\<close>
  "AtLeast n r = Seq (rep_n n r) (Star r)"

definition Between :: "nat \<Rightarrow> nat \<Rightarrow> regex \<Rightarrow> regex" where
  \<comment> \<open>\<open>r{n,m}\<close>\<close>
  "Between n m r = Seq (rep_n n r) (rep_upto (m - n) r)"

section \<open>Signature stripping (stripSignature)\<close>

text \<open>
  The patterns of Strategy 2, in the order of the source. Each but the first is a newline,
  a phrase under the \<open>i\<close> flag, and \<open>[\s\S]*\<close>.
\<close>

definition sig_delimiter :: regex where
  \<comment> \<open>\<open>/\n--\s*\n[\s\S]*/\<close>\<close>
  "sig_delimiter =
     seqs [lit (js ''\<newline>--''), Star (Chr is_ws), lit (js ''\<newline>''), Star (Chr any_cu)]"

definition sig_phrase :: "jsstring \<Rightarrow> regex" where
  \<comment> \<open>\<open>/\nPHRASE[\s\S]*/i\<close>\<close>
  "sig_phrase p = Seq (lit_i (10 # p)) (Star (Chr any_cu))"

definition signaturePatterns :: "regex list" where
  "signaturePatterns =
     [sig_delimiter,
      sig_phrase (js ''Best regards,''),
      sig_phrase (js ''Kind regards,''),
      sig_phrase (js ''Regards,''),
      sig_phrase (js ''Sincerely,''),
      sig_phrase (js ''Thanks,''),
      sig_phrase (js ''Thank you,''),
      sig_phrase (js ''Cheers,''),
      sig_phrase (js ''Cordialement,''),
      sig_phrase (js ''Cdlt,''),
      sig_phrase (js ''Mit freundlichen Gr'' @ [252, 223] @ js ''en,''),
      sig_phrase (js ''MfG,''),
      sig_phrase (js ''Sent from my iPhone''),
      sig_phrase (js ''Sent from my Android''),
      sig_phrase (js ''Get Outlook for''),
      sig_phrase (js ''Envoy'' @ [233] @ js '' de mon''),
      sig_phrase (js ''Verzonden vanaf'')]"

text \<open>The loop over the patterns: the first one that matches is cut out, and the loop returns.\<close>

fun strip_by_patterns :: "regex list \<Rightarrow> jsstring \<Rightarrow> jsstring option" where
  "strip_by_patterns [] result = None"
| "strip_by_patterns (pattern # ps) result =
     (if test pattern result then Some (trim (replace_first pattern [] result))
      else strip_by_patterns ps result)"

definition hasPhone :: regex where
  \<comment> \<open>\<open>/\+?[\d\s\-\(\).]{8,20}/\<close>\<close>
  "hasPhone =
     Seq (Opt (Chr (chr 43)))
         (Between 8 20 (Chr (\<lambda>c. digit c \<or> is_ws c \<or> one_of (js ''-().'') c)))"

definition hasEmail :: regex where
  \<comment> \<open>\<open>/[a-z0-9._%+-]+@[a-z0-9.-]+\.[a-z]{2,}/i\<close>\<close>
  "hasEmail =
     seqs [Plus (Chr (\<lambda>c. lower c \<or> upper c \<or> digit c \<or> one_of (js ''._%+-'') c)),
           Chr (chr 64),
           Plus (Chr (\<lambda>c. lower c \<or> upper c \<or> digit c \<or> one_of (js ''.-'') c)),
           Chr (chr 46),
           AtLeast 2 (Chr (\<lambda>c. lower c \<or> upper c))]"

definition hasUrl :: regex where
  \<comment> \<open>\<open>/www\.|http/i\<close>\<close>
  "hasUrl = Alt (lit_i (js ''www.'')) (lit_i (js ''http''))"

text \<open>
  Strategy 3: the loop runs \<open>i\<close> from the last line down to \<open>max 0 (length - 8)\<close>; the
  indices are given in that order.
\<close>

fun contact_scan :: "jsstring list \<Rightarrow> nat list \<Rightarrow> jsstring option" where
  "contact_scan lines [] = None"
| "contact_scan lines (i # is) =
     (let line = trim (lines ! i) in
      if (test hasPhone line \<or> test hasEmail line \<or> test hasUrl line)
         \<and> int i > int (length lines) - 10
      then Some (trim (join (js ''\<newline>'') (take i lines)))
      else contact_scan lines is)"

definition stripSignature :: "jsstring \<Rightarrow> jsstring option \<Rightarrow> jsstring" where
  "stripSignature text template =
     (let result = trim text in
      case (case template of
              None \<Rightarrow> None
            | Some t \<Rightarrow> if t \<noteq> [] \<and> length t > 5 \<and> endsWith result t then Some t else None) of
        Some t \<Rightarrow> trim (take (length result - length t) result)
      | None \<Rightarrow>
          (case strip_by_patterns signaturePatterns result of
             Some r \<Rightarrow> r
           | None \<Rightarrow>
               (let lines = split_nl result in
                if length lines > 3
                then (case contact_scan lines
                             (rev [nat (max 0 (int (length lines) - 8)) ..< length lines]) of
                        Some r \<Rightarrow> r
                      | None \<Rightarrow> result)
                else result)))"

section \<open>Thread text cleaning (cleanThreadContent)\<close>

definition range_pattern :: "regex \<Rightarrow> jsstring \<Rightarrow> regex" where
  \<comment> \<open>\<open>/LABEL[\s\S]*?(?=NEXT)/gi\<close>\<close>
  "range_pattern label nxt = seqs [label, LazyStar (Chr any_cu), Ahead (lit_i nxt)]"

definition rangePatterns :: "(regex \<times> jsstring) list" where
  "rangePatterns =
     [(range_pattern (lit_i (js ''From:'')) (js ''Sent:''), js ''From:\<newline>''),
      (range_pattern (lit_i (js ''Sent:'')) (js ''To:''), js ''Sent:\<newline>''),
      (range_pattern (lit_i (js ''To:'')) (js ''Subject:''), js ''To:\<newline>''),
      (range_pattern (seqs [lit_i (js ''De''), Star (Chr is_ws), lit_i (js '':'')])
         (js ''Envoy'' @ [233]), js ''De:\<newline>''),
      (range_pattern (seqs [lit_i (js ''Envoy'' @ [233]), Star (Chr is_ws), lit_i (js '':'')])
         [192], js ''Envoy'' @ [233] @ js '':\<newline>''),
      (range_pattern (seqs [lit_i [192], Star (Chr is_ws), lit_i (js '':'')])
         (js ''Objet''), [192] @ js '':\<newline>''),
      (range_pattern (lit_i (js ''Von:'')) (js ''Gesendet''), js ''Von:\<newline>''),
      (range_pattern (lit_i (js ''Gesendet:'')) (js ''An''), js ''Gesendet:\<newline>''),
      (range_pattern (lit_i (js ''An:'')) (js ''Betreff''), js ''An:\<newline>'')]"

definition header_line :: "jsstring \<Rightarrow> regex" where
  \<comment> \<open>\<open>/^LABEL.*$/gm\<close>\<close>
  "header_line label = seqs [Bol True, lit label, Star (Chr dot), Eol True]"

definition banner_line :: "jsstring \<Rightarrow> regex" where
  \<comment> \<open>\<open>/^BANNER.*$/gim\<close>\<close>
  "banner_line banner = seqs [Bol True, lit_i banner, Star (Chr dot), Eol True]"

definition wrote_line :: "jsstring \<Rightarrow> regex \<Rightarrow> regex" where
  \<comment> \<open>\<open>/^On\s+.*\s+wrote:\s*$/gim\<close> and its French and German forms\<close>
  "wrote_line w verb =
     seqs [Bol True, lit_i w, Plus (Chr is_ws), Star (Chr dot), Plus (Chr is_ws), verb,
           Star (Chr is_ws), Eol True]"

definition bracketed_address :: regex where
  \<comment> \<open>\<open>/<[a-zA-Z0-9._%+-]+@[a-zA-Z0-9.-]+\.[a-zA-Z]{2,}>/g\<close>\<close>
  "bracketed_address =
     seqs [Chr (chr 60),
           Plus (Chr (\<lambda>c. lower c \<or> upper c \<or> digit c \<or> one_of (js ''._%+-'') c)),
           Chr (chr 64),
           Plus (Chr (\<lambda>c. lower c \<or> upper c \<or> digit c \<or> one_of (js ''.-'') c)),
           Chr (chr 46),
           AtLeast 2 (Chr (\<lambda>c. lower c \<or> upper c)),
           Chr (chr 62)]"

definition headerPatterns :: "regex list" where
  "headerPatterns =
     [header_line (js ''Cc:''),
      header_line (js ''Bcc:''),
      header_line (js ''Date:''),
      header_line (js ''Importance:''),
      bracketed_address,
      wrote_line (js ''On'') (lit_i (js ''wrote:'')),
      wrote_line (js ''Le'')
        (seqs [lit_i (js ''a '' @ [233] @ js ''crit''), Star (Chr is_ws), lit_i (js '':'')]),
      wrote_line (js ''Am'')
        (seqs [lit_i (js ''schrieb''), Star (Chr is_ws), lit_i (js '':'')]),
      seqs [Bol True, AtLeast 3 (Chr (one_of (js ''-_''))), Star (Chr dot), Eol True],
      banner_line (js ''Original Message''),
      banner_line (js ''Message d'' @ [39] @ js ''origine''),
      banner_line (js ''Forwarded message'')]"

definition cleanThreadContent :: "jsstring \<Rightarrow> jsstring" where
  "cleanThreadContent text =
     (if text = [] then []
      else
        (let result = fold (\<lambda>(pattern, replacement). replace_all pattern [RLit replacement])
                        rangePatterns text;
             result = fold (\<lambda>pattern. replace_all pattern []) headerPatterns result;
             result = replace_all (AtLeast 3 (Chr (chr 10))) [RLit (js ''\<newline>\<newline>'')] result;
             result = stripSignature result None
         in trim result))"

section \<open>The compose document\<close>

text \<open>
  The functions below start from the tree that the browser's HTML parser builds when the
  source assigns \<open>temp.innerHTML = html\<close>: the list of the children of \<open>temp\<close>. Every node
  carries an identity \<open>nid\<close> (two nodes of a document never share one); element and
  attribute names are in lower case, as the parser leaves them.
\<close>

datatype node =
    Element (nid: nat) (tag: string) (attrs: "(string \<times> jsstring) list") (children: "node list")
  | Text (nid: nat) (data: jsstring)
  | Comment (nid: nat) (data: jsstring)

fun textContent :: "node \<Rightarrow> jsstring" where
  "textContent (Element i t as cs) = concat (map textContent cs)"
| "textContent (Text i d) = d"
| "textContent (Comment i d) = []"

definition textContent_of :: "node list \<Rightarrow> jsstring" where
  \<comment> \<open>\<open>textContent\<close> of a container holding these children\<close>
  "textContent_of ns = concat (map textContent ns)"

text \<open>The elements below a container, in document order.\<close>

fun elements_of :: "node \<Rightarrow> node list" where
  "elements_of (Element i t as cs) = Element i t as cs # concat (map elements_of cs)"
| "elements_of (Text i d) = []"
| "elements_of (Comment i d) = []"

definition descendants :: "node list \<Rightarrow> node list" where
  "descendants temp = concat (map elements_of temp)"

text \<open>\<open>node.contains(other)\<close>, with \<open>other\<close> given by its identity.\<close>

fun contains :: "node \<Rightarrow> nat \<Rightarrow> bool" where
  "contains (Element i t as cs) k \<longleftrightarrow> i = k \<or> (\<exists>c \<in> set cs. contains c k)"
| "contains (Text i d) k \<longleftrightarrow> i = k"
| "contains (Comment i d) k \<longleftrightarrow> i = k"

text \<open>The identities of a node and of all the nodes below it.\<close>

fun node_ids :: "node \<Rightarrow> nat list" where
  "node_ids (Element i t as cs) = i # concat (map node_ids cs)"
| "node_ids (Text i d) = [i]"
| "node_ids (Comment i d) = [i]"

definition ids_of :: "node list \<Rightarrow> nat list" where
  "ids_of ns = concat (map node_ids ns)"

text \<open>The selectors the program passes to \<open>querySelector\<close>.\<close>

datatype selector =
    ById jsstring
  | ByClass jsstring
  | ByTag string
  | ByTagAttr string string jsstring
  | HasAttr string

definition class_tokens :: "jsstring \<Rightarrow> jsstring list" where
  \<comment> \<open>the class attribute, split on ASCII whitespace\<close>
  "class_tokens v =
     filter (\<lambda>t. t \<noteq> [])
       (foldr (\<lambda>c acc. if c \<in> {9, 10, 12, 13, 32} then [] # acc
                        else (case acc of [] \<Rightarrow> [[c]] | t # ts \<Rightarrow> (c # t) # ts))
              v [[]])"

fun matches :: "selector \<Rightarrow> node \<Rightarrow> bool" where
  "matches (ById v) (Element i t as cs) \<longleftrightarrow> map_of as ''id'' = Some v"
| "matches (ByClass v) (Element i t as cs) \<longleftrightarrow>
     (case map_of as ''class'' of None \<Rightarrow> False | Some cl \<Rightarrow> v \<in> set (class_tokens cl))"
| "matches (ByTag n) (Element i t as cs) \<longleftrightarrow> t = n"
| "matches (ByTagAttr n a v) (Element i t as cs) \<longleftrightarrow> t = n \<and> map_of as a = Some v"
| "matches (HasAttr a) (Element i t as cs) \<longleftrightarrow> map_of as a \<noteq> None"
| "matches sel (Text i d) \<longleftrightarrow> False"
| "matches sel (Comment i d) \<longleftrightarrow> False"

definition querySelector :: "selector \<Rightarrow> node list \<Rightarrow> node option" where
  "querySelector sel temp = List.find (matches sel) (descendants temp)"

definition querySelectorAll :: "string list \<Rightarrow> node list \<Rightarrow> node list" where
  \<comment> \<open>a selector list of element names, such as \<open>'div, p, font'\<close>\<close>
  "querySelectorAll names temp = filter (\<lambda>e. tag e \<in> set names) (descendants temp)"

text \<open>The loop over a list of selectors: the first selector that selects an element.\<close>

fun first_selected :: "selector list \<Rightarrow> node list \<Rightarrow> node option" where
  "first_selected [] temp = None"
| "first_selected (sel # sels) temp =
     (case querySelector sel temp of
        Some e \<Rightarrow> Some e
      | None \<Rightarrow> first_selected sels temp)"

section \<open>Thread boundary and segmentation (parseEmailHtml)\<close>

definition threadMarkers :: "selector list" where
  "threadMarkers =
     [ById (js ''divRplyFwdMsg''),
      ById (js ''x_divRplyFwdMsg''),
      ByClass (js ''gmail_quote''),
      ById (js ''appendonsend''),
      ByTagAttr ''hr'' ''tabindex'' (js ''-1''),
      ByClass (js ''ms-MessageBody''),
      ByTag ''blockquote'']"

definition threadTextPatterns :: "regex list" where
  \<comment> \<open>\<open>/From:.*Sent:/i\<close>, \<open>/De\s*:.*Envoy\'e/i\<close>, \<open>/Von:.*Gesendet/i\<close>,
      \<open>/---------- Original Message ----------/i\<close>\<close>
  "threadTextPatterns =
     [seqs [lit_i (js ''From:''), Star (Chr dot), lit_i (js ''Sent:'')],
      seqs [lit_i (js ''De''), Star (Chr is_ws), lit_i (js '':''), Star (Chr dot),
            lit_i (js ''Envoy'' @ [233])],
      seqs [lit_i (js ''Von:''), Star (Chr dot), lit_i (js ''Gesendet'')],
      lit_i (js ''---------- Original Message ----------'')]"

definition threadByText :: "node list \<Rightarrow> node option" where
  \<comment> \<open>the loop over \<open>querySelectorAll('div, p, font')\<close>\<close>
  "threadByText temp =
     List.find (\<lambda>el. \<exists>p \<in> set threadTextPatterns. test p (textContent el))
       (querySelectorAll [''div'', ''p'', ''font''] temp)"

definition threadElement :: "node list \<Rightarrow> node option" where
  \<comment> \<open>\<open>threadElement\<close> of parseEmailHtml when the searches are done\<close>
  "threadElement temp =
     (case first_selected threadMarkers temp of
        Some e \<Rightarrow> Some e
      | None \<Rightarrow>
          (case threadByText temp of
             Some e \<Rightarrow> Some e
           | None \<Rightarrow> querySelector (ByTag ''hr'') temp))"

record parsed =
  currentMessage :: jsstring
  threadContent :: jsstring

text \<open>
  The first loop clones the children of \<open>temp\<close> up to the one that holds the thread element,
  the second loop clones that child and all its following siblings.
\<close>

definition parseEmailHtml :: "node list \<Rightarrow> parsed" where
  "parseEmailHtml temp =
     (case threadElement temp of
        Some el \<Rightarrow>
          (let beforeThread = takeWhile (\<lambda>n. \<not> contains n (nid el)) temp;
               fullThread = dropWhile (\<lambda>n. \<not> contains n (nid el)) temp
           in \<lparr>currentMessage = trim (textContent_of beforeThread),
               threadContent = trim (textContent_of fullThread)\<rparr>)
      | None \<Rightarrow>
          \<lparr>currentMessage = trim (textContent_of temp), threadContent = trim []\<rparr>)"

section \<open>Preserved fragments (extractPreservedContent)\<close>

text \<open>
  \<open>signatureHtml\<close> and \<open>threadHtml\<close> are given as the nodes cloned into \<open>sigContainer\<close> and
  \<open>threadContainer\<close>; the strings of the source are their serializations by \<open>innerHTML\<close>.
\<close>

record preserved =
  signatureHtml :: "node list"
  threadHtml :: "node list"

definition threadElement_preserved :: "node list \<Rightarrow> node option" where
  \<comment> \<open>Step 1 searches as parseEmailHtml does, without the last resort of a plain \<open>hr\<close>\<close>
  "threadElement_preserved temp =
     (case first_selected threadMarkers temp of
        Some e \<Rightarrow> Some e
      | None \<Rightarrow> threadByText temp)"

definition signatureMarkers :: "selector list" where
  "signatureMarkers =
     [ById (js ''Signature''),
      ByClass (js ''Signature''),
      ById (js ''ms-outlook-mobile-signature''),
      HasAttr ''data-signature'']"

definition signaturePhrases :: "regex list" where
  \<comment> \<open>\<open>/^Best regards/im\<close> and the like, then \<open>/^--\s*$/m\<close>\<close>
  "signaturePhrases =
     map (\<lambda>p. Seq (Bol True) (lit_i p))
       [js ''Best regards'', js ''Kind regards'', js ''Regards'', js ''Sincerely'',
        js ''Thanks'', js ''Thank you'', js ''Cheers'', js ''Cordialement'', js ''Cdlt'',
        js ''Mit freundlichen Gr'' @ [252, 223] @ js ''en'', js ''MfG'']
     @ [seqs [Bol True, lit (js ''--''), Star (Chr is_ws), Eol True]]"

definition signatureElement :: "jsstring option \<Rightarrow> node list \<Rightarrow> node option" where
  "signatureElement initialBodyTemplate temp =
     (case first_selected signatureMarkers temp of
        Some e \<Rightarrow> Some e
      | None \<Rightarrow>
          (case (case initialBodyTemplate of
                   None \<Rightarrow> None
                 | Some t \<Rightarrow>
                     if t \<noteq> [] \<and> length t > 5
                     then List.find
                            (\<lambda>el. length (trim (textContent el)) > 5
                                   \<and> js_includes t (trim (textContent el)))
                            (rev (querySelectorAll [''div'', ''p'', ''table''] temp))
                     else None) of
             Some e \<Rightarrow> Some e
           | None \<Rightarrow>
               List.find (\<lambda>el. \<exists>phrase \<in> set signaturePhrases. test phrase (textContent el))
                 (querySelectorAll [''div'', ''p''] temp)))"

text \<open>
  Both walks \<open>while (startNode.parentElement && startNode.parentElement !== temp)\<close> end at
  the child of \<open>temp\<close> that holds the element found; the clone loops then take that child
  and its following siblings, and the removal loop of Step 1 leaves the children before it.
\<close>

definition extractPreservedContent :: "jsstring option \<Rightarrow> node list \<Rightarrow> preserved" where
  "extractPreservedContent initialBodyTemplate temp =
     (let (threadHtml, temp) =
            (case threadElement_preserved temp of
               Some el \<Rightarrow>
                 (dropWhile (\<lambda>n. \<not> contains n (nid el)) temp,
                  takeWhile (\<lambda>n. \<not> contains n (nid el)) temp)
             | None \<Rightarrow> ([], temp));
          signatureHtml =
            (case signatureElement initialBodyTemplate temp of
               Some el \<Rightarrow> dropWhile (\<lambda>n. \<not> contains n (nid el)) temp
             | None \<Rightarrow> [])
      in \<lparr>signatureHtml = signatureHtml, threadHtml = threadHtml\<rparr>)"

section \<open>The capture cycle (captureEmailBody)\<close>

record session =
  currentEmailBody :: jsstring
  currentEmailBodyHtml :: "node list"
  currentThreadContent :: jsstring
  initialBodyTemplate :: "jsstring option"

text \<open>
  The result the host passes to the callback of \<open>body.getAsync\<close>, and the state of the
  include-thread toggle when the callback runs.
\<close>

datatype 'a asyncResult = Succeeded 'a | Failed

definition captureEmailBody :: "bool \<Rightarrow> node list asyncResult \<Rightarrow> session \<Rightarrow> session" where
  "captureEmailBody includeThread htmlResult s =
     (case htmlResult of
        Failed \<Rightarrow> s
      | Succeeded fullHtml \<Rightarrow>
          (let s = s\<lparr>currentEmailBodyHtml := fullHtml\<rparr>;
               p = parseEmailHtml fullHtml;
               s = (if initialBodyTemplate s = None
                    then s\<lparr>initialBodyTemplate := Some (trim (currentMessage p))\<rparr>
                    else s);
               s = s\<lparr>currentEmailBody := stripSignature (currentMessage p) (initialBodyTemplate s)\<rparr>
           in if includeThread
              then s\<lparr>currentThreadContent := cleanThreadContent (threadContent p)\<rparr>
              else s\<lparr>currentThreadContent := []\<rparr>))"

text \<open>The timer and the toggle run the capture again and again through a session.\<close>

fun captures :: "(bool \<times> node list asyncResult) list \<Rightarrow> session \<Rightarrow> session" where
  "captures [] s = s"
| "captures ((includeThread, htmlResult) # rs) s =
     captures rs (captureEmailBody includeThread htmlResult s)"

section \<open>Formatting for insertion (addOutlookStyles, formatBodyForInsert)\<close>

definition p_style :: jsstring where
  \<open>p_style = js ''<p style="margin-top: 0; margin-bottom: 15px;">''\<close>

definition ul_style :: jsstring where
  \<open>ul_style = js ''<ul style="margin-bottom: 15px;">''\<close>

definition ol_style :: jsstring where
  \<open>ol_style = js ''<ol style="margin-bottom: 15px;">''\<close>

definition addOutlookStyles :: "jsstring \<Rightarrow> jsstring" where
  "addOutlookStyles html =
     (if html = [] then html
      else
        (let styledHtml = replace_all (lit_i (js ''<p>'')) [RLit p_style] html;
             styledHtml = replace_all (lit_i (js ''<ul>'')) [RLit ul_style] styledHtml;
             styledHtml = replace_all (lit_i (js ''<ol>'')) [RLit ol_style] styledHtml
         in styledHtml))"

definition html_tag :: regex where
  \<comment> \<open>\<open>/<[a-z][\s\S]*>/i\<close>\<close>
  "html_tag =
     seqs [Chr (chr 60), Chr (\<lambda>c. lower c \<or> upper c), Star (Chr any_cu), Chr (chr 62)]"

definition bold_stars :: regex where
  \<comment> \<open>\<open>/\*\*(.+?)\*\*/g\<close>\<close>
  "bold_stars = seqs [lit (js ''**''), Group (LazyPlus (Chr dot)), lit (js ''**'')]"

definition italic_star :: regex where
  \<comment> \<open>\<open>/(?<!\*)\*(?!\*)(.+?)(?<!\*)\*(?!\*)/g\<close>\<close>
  "italic_star =
     seqs [NotBehind (chr 42), Chr (chr 42), NotAhead (Chr (chr 42)),
           Group (LazyPlus (Chr dot)),
           NotBehind (chr 42), Chr (chr 42), NotAhead (Chr (chr 42))]"

definition bold_underscores :: regex where
  \<comment> \<open>\<open>/__(.+?)__/g\<close>\<close>
  "bold_underscores = seqs [lit (js ''__''), Group (LazyPlus (Chr dot)), lit (js ''__'')]"

definition italic_underscore :: regex where
  \<comment> \<open>\<open>/(?<!_)_(?!_)(.+?)(?<!_)_(?!_)/g\<close>\<close>
  "italic_underscore =
     seqs [NotBehind (chr 95), Chr (chr 95), NotAhead (Chr (chr 95)),
           Group (LazyPlus (Chr dot)),
           NotBehind (chr 95), Chr (chr 95), NotAhead (Chr (chr 95))]"

definition unordered_item :: regex where
  \<comment> \<open>\<open>/^[-*]\s+(.+)$/\<close>\<close>
  "unordered_item =
     seqs [Bol False, Chr (one_of (js ''-*'')), Plus (Chr is_ws), Group (Plus (Chr dot)),
           Eol False]"

definition ordered_item :: regex where
  \<comment> \<open>\<open>/^\d+\.\s+(.+)$/\<close>\<close>
  "ordered_item =
     seqs [Bol False, Plus (Chr digit), Chr (chr 46), Plus (Chr is_ws), Group (Plus (Chr dot)),
           Eol False]"

text \<open>The state of the loop over the lines.\<close>

record blocks =
  processedLines :: "jsstring list"
  inUnorderedList :: bool
  inOrderedList :: bool

definition push :: "jsstring \<Rightarrow> blocks \<Rightarrow> blocks" where
  "push x b = b\<lparr>processedLines := processedLines b @ [x]\<rparr>"

definition last_ends :: "blocks \<Rightarrow> string \<Rightarrow> bool" where
  \<comment> \<open>\<open>processedLines[processedLines.length - 1].endsWith(x)\<close>, on a list that is not empty\<close>
  "last_ends b x \<longleftrightarrow> endsWith (last (processedLines b)) (js x)"

definition close_ul :: "blocks \<Rightarrow> blocks" where
  "close_ul b = (if inUnorderedList b then (push (js ''</ul>'') b)\<lparr>inUnorderedList := False\<rparr> else b)"

definition close_ol :: "blocks \<Rightarrow> blocks" where
  "close_ol b = (if inOrderedList b then (push (js ''</ol>'') b)\<lparr>inOrderedList := False\<rparr> else b)"

definition process_line :: "jsstring \<Rightarrow> blocks \<Rightarrow> blocks" where
  "process_line raw b =
     (let line = trim raw in
      case match1 unordered_item line of
        Some item \<Rightarrow>
          (let b = close_ol b;
               b = (if \<not> inUnorderedList b then (push (js ''<ul>'') b)\<lparr>inUnorderedList := True\<rparr>
                    else b)
           in push (js ''<li>'' @ item @ js ''</li>'') b)
      | None \<Rightarrow>
          (case match1 ordered_item line of
             Some item \<Rightarrow>
               (let b = close_ul b;
                    b = (if \<not> inOrderedList b then (push (js ''<ol>'') b)\<lparr>inOrderedList := True\<rparr>
                         else b)
                in push (js ''<li>'' @ item @ js ''</li>'') b)
           | None \<Rightarrow>
               (let b = close_ol (close_ul b) in
                if line = []
                then (if processedLines b \<noteq> [] \<and> \<not> last_ends b ''</p>''
                      then push (js ''</p><p>'') b else b)
                else if processedLines b = [] \<or> last_ends b ''</p>'' \<or> last_ends b ''</ul>''
                        \<or> last_ends b ''</ol>''
                then push (js ''<p>'' @ line) b
                else if last (processedLines b) = js ''</p><p>''
                then b\<lparr>processedLines := butlast (processedLines b) @ [js ''</p><p>'' @ line]\<rparr>
                else
                  (let b = (if processedLines b \<noteq> [] \<and> \<not> last_ends b ''</p>''
                               \<and> \<not> last_ends b ''</ul>'' \<and> \<not> last_ends b ''</ol>''
                            then b\<lparr>processedLines :=
                                     butlast (processedLines b)
                                     @ [last (processedLines b) @ js ''</p>'']\<rparr>
                            else b)
                   in push (js ''<p>'' @ line) b))))"

definition formatBodyForInsert :: "jsstring \<Rightarrow> jsstring" where
  "formatBodyForInsert body =
     (if test html_tag body then addOutlookStyles body
      else
        (let html = replace_all bold_stars [RLit (js ''<strong>''), RCap1, RLit (js ''</strong>'')] body;
             html = replace_all italic_star [RLit (js ''<em>''), RCap1, RLit (js ''</em>'')] html;
             html = replace_all bold_underscores
                      [RLit (js ''<strong>''), RCap1, RLit (js ''</strong>'')] html;
             html = replace_all italic_underscore [RLit (js ''<em>''), RCap1, RLit (js ''</em>'')] html;
             b = fold process_line (split_nl html)
                   \<lparr>processedLines = [], inUnorderedList = False, inOrderedList = False\<rparr>;
             b = (if inUnorderedList b then push (js ''</ul>'') b else b);
             b = (if inOrderedList b then push (js ''</ol>'') b else b);
             result = concat (processedLines b)
         in if js_includes result (js ''<p>'') \<and> \<not> endsWith result (js ''</p>'')
               \<and> \<not> endsWith result (js ''</ul>'') \<and> \<not> endsWith result (js ''</ol>'')
            then result @ js ''</p>''
            else if \<not> js_includes result (js ''<p>'') \<and> \<not> js_includes result (js ''<ul>'')
                    \<and> \<not> js_includes result (js ''ol>'')
            then addOutlookStyles (js ''<p>'' @ result @ js ''</p>'')
            else addOutlookStyles result))"

text \<open>
  The placeholder tokens of the system prompt (\<open>[[TABLE_1]]\<close>, \<open>[[IMAGE_1]]\<close>): two opening
  brackets, a kind in capital letters, an underscore, a number, two closing brackets.
\<close>

definition is_placeholder :: "jsstring \<Rightarrow> bool" where
  "is_placeholder tok \<longleftrightarrow>
     (let kind = takeWhile upper (drop 2 tok);
          num = takeWhile digit (drop (3 + length kind) tok)
      in kind \<noteq> [] \<and> num \<noteq> []
         \<and> tok = js ''[['' @ kind @ js ''_'' @ num @ js '']]'')"

text \<open>
  The inline rules are applied one after the other; \<open>before_italic_underscore\<close> is the text
  the last of them, the rule for \<open>_italic_\<close>, reads: the body after the rewrites of
  \<open>**bold**\<close>, \<open>*italic*\<close> and \<open>__bold__\<close>, the first three replacements of
  \<open>formatBodyForInsert\<close>.
\<close>

definition before_italic_underscore :: "jsstring \<Rightarrow> jsstring" where
  "before_italic_underscore body =
     (let html = replace_all bold_stars [RLit (js ''<strong>''), RCap1, RLit (js ''</strong>'')] body;
          html = replace_all italic_star [RLit (js ''<em>''), RCap1, RLit (js ''</em>'')] html;
          html = replace_all bold_underscores
                   [RLit (js ''<strong>''), RCap1, RLit (js ''</strong>'')] html
      in html)"

text \<open>
  The class \<open>.\<close> does not cross a line terminator, so a match of an inline rule lies in one
  line. \<open>line_before p\<close> is the part of \<open>p\<close> after its last line terminator and
  \<open>line_after q\<close> the part of \<open>q\<close> before its first. \<open>has_lone prev s\<close> says that \<open>s\<close> holds
  an underscore with no underscore next to it, where \<open>prev\<close> tells whether an underscore
  stands just before \<open>s\<close>: such an underscore is where \<open>(?<!_)_(?!_)\<close> matches.
\<close>

definition line_before :: "jsstring \<Rightarrow> jsstring" where
  "line_before p = rev (takeWhile (\<lambda>c. \<not> is_lt c) (rev p))"

definition line_after :: "jsstring \<Rightarrow> jsstring" where
  "line_after q = takeWhile (\<lambda>c. \<not> is_lt c) q"

fun has_lone :: "bool \<Rightarrow> jsstring \<Rightarrow> bool" where
  "has_lone prev [] \<longleftrightarrow> False"
| "has_lone prev (c # cs) \<longleftrightarrow>
     (c = 95 \<and> \<not> prev \<and> (cs = [] \<or> hd cs \<noteq> 95)) \<or> has_lone (c = 95) cs"

text \<open>
  \<open>occurrences tok s\<close> lists the positions at which \<open>tok\<close> occurs in \<open>s\<close>, and
  \<open>stands_alone tok s\<close> says that no occurrence of \<open>tok\<close> in \<open>s\<close> shares its line with a lone
  underscore outside the token.
\<close>

definition occurrences :: "jsstring \<Rightarrow> jsstring \<Rightarrow> nat list" where
  "occurrences tok s = filter (\<lambda>i. take (length tok) (drop i s) = tok) [0..<Suc (length s)]"

definition stands_alone :: "jsstring \<Rightarrow> jsstring \<Rightarrow> bool" where
  "stands_alone tok s \<longleftrightarrow>
     (\<forall>i \<in> set (occurrences tok s).
        \<not> has_lone False (line_before (take i s))
        \<and> \<not> has_lone False (line_after (drop (i + length tok) s)))"

section \<open>The completion result (handleProcess, displayResults)\<close>

text \<open>
  The values \<open>JSON.parse\<close> returns. A number is kept as the text of its literal.
\<close>

datatype json =
    JNull
  | JBool bool
  | JNumber jsstring
  | JString jsstring
  | JArray "json list"
  | JObject "(jsstring \<times> json) list"

definition json_ws :: "jschar \<Rightarrow> bool" where
  "json_ws c \<longleftrightarrow> c = 32 \<or> c = 9 \<or> c = 10 \<or> c = 13"

definition hex_digit :: "jschar \<Rightarrow> bool" where
  "hex_digit c \<longleftrightarrow> digit c \<or> (65 \<le> c \<and> c \<le> 70) \<or> (97 \<le> c \<and> c \<le> 102)"

definition hex_value :: "jschar \<Rightarrow> int" where
  "hex_value c = (if digit c then c - 48 else if c \<le> 70 then c - 55 else c - 87)"

text \<open>The characters of a JSON string after its opening quote, up to the closing one.\<close>

fun json_chars :: "jsstring \<Rightarrow> (jsstring \<times> jsstring) option" where
  "json_chars [] = None"
| "json_chars (c # cs) =
     (if c = 34 then Some ([], cs)
      else if c < 32 then None
      else if c = 92 then
        (case cs of
           [] \<Rightarrow> None
         | e # es \<Rightarrow>
             if e = 117 then
               (case es of
                  h1 # h2 # h3 # h4 # r \<Rightarrow>
                    if hex_digit h1 \<and> hex_digit h2 \<and> hex_digit h3 \<and> hex_digit h4
                    then map_option
                           (\<lambda>(x, r'). ((((hex_value h1 * 16 + hex_value h2) * 16 + hex_value h3) * 16
                                          + hex_value h4) # x, r'))
                           (json_chars r)
                    else None
                | _ \<Rightarrow> None)
             else
               (case map_of [(34, 34), (92, 92), (47, 47), (98, 8), (102, 12), (110, 10),
                             (114, 13), (116, 9)] e of
                  None \<Rightarrow> None
                | Some v \<Rightarrow> map_option (\<lambda>(x, r'). (v # x, r')) (json_chars es)))
      else map_option (\<lambda>(x, r'). (c # x, r')) (json_chars cs))"

text \<open>
  A JSON number: an optional minus, \<open>0\<close> or a digit from 1 to 9 with more digits, an optional
  fraction, an optional exponent. The result is the literal and the input after it.
\<close>

definition json_int :: "jsstring \<Rightarrow> (jsstring \<times> jsstring) option" where
  "json_int s =
     (case s of
        [] \<Rightarrow> None
      | c # cs \<Rightarrow>
          if c = 48 then Some ([c], cs)
          else if 49 \<le> c \<and> c \<le> 57 then Some (c # takeWhile digit cs, dropWhile digit cs)
          else None)"

definition json_frac :: "jsstring \<Rightarrow> (jsstring \<times> jsstring) option" where
  "json_frac s =
     (case s of
        [] \<Rightarrow> Some ([], s)
      | c # cs \<Rightarrow>
          if c \<noteq> 46 then Some ([], s)
          else if takeWhile digit cs = [] then None
          else Some (c # takeWhile digit cs, dropWhile digit cs))"

definition json_exp :: "jsstring \<Rightarrow> (jsstring \<times> jsstring) option" where
  "json_exp s =
     (case s of
        [] \<Rightarrow> Some ([], s)
      | c # cs \<Rightarrow>
          if c \<noteq> 101 \<and> c \<noteq> 69 then Some ([], s)
          else
            (let (sign, ds) = (case cs of
                                 [] \<Rightarrow> ([], cs)
                               | d # r \<Rightarrow> if d = 43 \<or> d = 45 then ([d], r) else ([], cs))
             in if takeWhile digit ds = [] then None
                else Some (c # sign @ takeWhile digit ds, dropWhile digit ds)))"

definition json_number :: "jsstring \<Rightarrow> (jsstring \<times> jsstring) option" where
  "json_number s =
     (let (sign, s1) = (case s of
                          [] \<Rightarrow> ([], s)
                        | c # cs \<Rightarrow> if c = 45 then ([c], cs) else ([], s))
      in case json_int s1 of
           None \<Rightarrow> None
         | Some (int_part, s2) \<Rightarrow>
             (case json_frac s2 of
                None \<Rightarrow> None
              | Some (frac, s3) \<Rightarrow>
                  (case json_exp s3 of
                     None \<Rightarrow> None
                   | Some (ex, s4) \<Rightarrow> Some (sign @ int_part @ frac @ ex, s4))))"

definition skip_ws :: "jsstring \<Rightarrow> jsstring" where
  "skip_ws s = dropWhile json_ws s"

definition literal :: "string \<Rightarrow> jsstring \<Rightarrow> jsstring option" where
  \<comment> \<open>the input after the keyword, when it starts with it\<close>
  "literal k s = (if take (length k) s = js k then Some (drop (length k) s) else None)"

text \<open>
  The recursive descent over values, array elements and object members. After a value the
  descent goes on in what the value left of the input; the tests \<open>length r < length s\<close>
  say that this is less than the input was, which \<open>parse_value_shrinks\<close> below shows to
  hold always.
\<close>

function parse_value :: "jsstring \<Rightarrow> (json \<times> jsstring) option"
  and parse_elements :: "jsstring \<Rightarrow> (json list \<times> jsstring) option"
  and parse_members :: "jsstring \<Rightarrow> ((jsstring \<times> json) list \<times> jsstring) option"
where
  "parse_value [] = None"
| "parse_value (c # cs) =
     (if c = 123 then
        (case skip_ws cs of
           [] \<Rightarrow> None
         | d # ds \<Rightarrow>
             if d = 125 then Some (JObject [], ds)
             else map_option (\<lambda>(ms, r). (JObject ms, r)) (parse_members (d # ds)))
      else if c = 91 then
        (case skip_ws cs of
           [] \<Rightarrow> None
         | d # ds \<Rightarrow>
             if d = 93 then Some (JArray [], ds)
             else map_option (\<lambda>(vs, r). (JArray vs, r)) (parse_elements (d # ds)))
      else if c = 34 then map_option (\<lambda>(x, r). (JString x, r)) (json_chars cs)
      else if c = 116 then map_option (\<lambda>r. (JBool True, r)) (literal ''true'' (c # cs))
      else if c = 102 then map_option (\<lambda>r. (JBool False, r)) (literal ''false'' (c # cs))
      else if c = 110 then map_option (\<lambda>r. (JNull, r)) (literal ''null'' (c # cs))
      else map_option (\<lambda>(x, r). (JNumber x, r)) (json_number (c # cs)))"
| "parse_elements s =
     (case parse_value s of
        None \<Rightarrow> None
      | Some (v, r) \<Rightarrow>
          if length r < length s then
            (case skip_ws r of
               [] \<Rightarrow> None
             | d # ds \<Rightarrow>
                 if d = 93 then Some ([v], ds)
                 else if d = 44
                 then map_option (\<lambda>(vs, r'). (v # vs, r')) (parse_elements (skip_ws ds))
                 else None)
          else None)"
| "parse_members [] = None"
| "parse_members (q # cs) =
     (if q \<noteq> 34 then None
      else
        (case json_chars cs of
           None \<Rightarrow> None
         | Some (k, r) \<Rightarrow>
             (case skip_ws r of
                [] \<Rightarrow> None
              | colon # r1 \<Rightarrow>
                  if colon \<noteq> 58 then None
                  else
                    (case parse_value (skip_ws r1) of
                       None \<Rightarrow> None
                     | Some (v, r2) \<Rightarrow>
                         if length r2 < length (skip_ws r1) then
                           (case skip_ws r2 of
                              [] \<Rightarrow> None
                            | d # ds \<Rightarrow>
                                if d = 125 then Some ([(k, v)], ds)
                                else if d = 44
                                then map_option (\<lambda>(ms, r'). ((k, v) # ms, r'))
                                       (parse_members (skip_ws ds))
                                else None)
                         else None))))"
  by pat_completeness auto

termination
proof -
  have ws: "length ds < length s" if "skip_ws s = d # ds" for s ds and d :: jschar
  proof -
    have "length (skip_ws s) \<le> length s"
      by (simp add: skip_ws_def length_dropWhile_le)
    with that show ?thesis by simp
  qed
  have ws': "length (skip_ws s) \<le> length s" for s
    by (simp add: skip_ws_def length_dropWhile_le)
  have chars: "length r < length s" if "json_chars s = Some (x, r)" for s x r
    using that
  proof (induction s arbitrary: x r rule: json_chars.induct)
    case 1
    then show ?case by simp
  next
    case (2 c cs)
    then show ?case
      by (fastforce split: if_splits list.splits option.splits)
  qed
  show ?thesis
    apply (relation "measure (\<lambda>x. case x of
                      Inl s \<Rightarrow> 2 * length s
                    | Inr (Inl s) \<Rightarrow> 2 * length s + 1
                    | Inr (Inr s) \<Rightarrow> 2 * length s + 1)")
    apply simp_all
    subgoal for c cs d ds
      using ws [of cs d ds] by simp
    subgoal for c cs d ds
      using ws [of cs d ds] by simp
    subgoal for s x2 v r d ds
      using ws [of r 44 ds] ws' [of ds] by simp
    subgoal for q cs x2 k r colon r1
      using chars [of cs k r] ws [of r 58 r1] ws' [of r1] by auto
    subgoal for q cs x2 k r colon r1 y2 v r2 d ds
      using chars [of cs k r] ws [of r 58 r1] ws' [of r1] ws [of r2 44 ds] ws' [of ds] by auto
    done
qed

definition JSON_parse :: "jsstring \<Rightarrow> json option" where
  \<comment> \<open>\<open>None\<close> when \<open>JSON.parse\<close> throws a SyntaxError\<close>
  "JSON_parse text =
     (case parse_value (skip_ws text) of
        None \<Rightarrow> None
      | Some (v, r) \<Rightarrow> if skip_ws r = [] then Some v else None)"

text \<open>
  Reading a property of the parsed value: \<open>None\<close> is \<open>undefined\<close>. Of two members with one
  key the later one stands. Only an object has the properties \<open>subject\<close> and \<open>body\<close>.
\<close>

definition get_prop :: "json \<Rightarrow> string \<Rightarrow> json option" where
  "get_prop v k = (case v of JObject ms \<Rightarrow> map_of (rev ms) (js k) | _ \<Rightarrow> None)"

text \<open>
  Whether the Number a literal denotes is zero: its digits are all zero, or its value is at
  most 2 to the power -1075, half of the least positive Number, and rounds to zero. The
  value of the literal is \<open>m\<close> times 10 to the power \<open>e\<close>, for the integer \<open>m\<close> of its digits and
  \<open>e\<close> the exponent less the count of its fraction digits.
\<close>

definition digits_value :: "jsstring \<Rightarrow> int" where
  "digits_value ds = foldl (\<lambda>a d. a * 10 + (d - 48)) 0 ds"

definition number_is_zero :: "jsstring \<Rightarrow> bool" where
  "number_is_zero x =
     (let mant = takeWhile (\<lambda>c. c \<noteq> 101 \<and> c \<noteq> 69) x;
          m = digits_value (filter digit mant);
          frac = length (filter digit (dropWhile (\<lambda>c. c \<noteq> 46) mant));
          ex = (case dropWhile (\<lambda>c. c \<noteq> 101 \<and> c \<noteq> 69) x of
                  [] \<Rightarrow> 0
                | _ # es \<Rightarrow>
                    if take 1 es = [45] then - digits_value (filter digit es)
                    else digits_value (filter digit es));
          e = ex - int frac
      in m = 0 \<or> (e < 0 \<and> m * 2 ^ 1075 \<le> 10 ^ nat (- e)))"

text \<open>Truthiness of a parsed value.\<close>

fun truthy :: "json \<Rightarrow> bool" where
  "truthy JNull \<longleftrightarrow> False"
| "truthy (JBool b) \<longleftrightarrow> b"
| "truthy (JNumber x) \<longleftrightarrow> \<not> number_is_zero x"
| "truthy (JString x) \<longleftrightarrow> x \<noteq> []"
| "truthy (JArray vs) \<longleftrightarrow> True"
| "truthy (JObject ms) \<longleftrightarrow> True"

datatype shown_error = ProviderError jsstring | TypeError

text \<open>
  displayResults throws a TypeError when \<open>currentResult\<close> is \<open>null\<close> (reading \<open>subject\<close>), and
  when \<open>body\<close> is truthy and has no method \<open>includes\<close> (only a string or an array has one).
\<close>

definition displayResults_throws :: "json \<Rightarrow> bool" where
  "displayResults_throws currentResult \<longleftrightarrow>
     currentResult = JNull
     \<or> (case get_prop currentResult ''body'' of
           None \<Rightarrow> False
         | Some b \<Rightarrow>
             truthy b \<and> (case b of JString x \<Rightarrow> False | JArray vs \<Rightarrow> False | _ \<Rightarrow> True))"

record taskpane =
  currentResult :: json
  errorMessage :: "shown_error option"

text \<open>
  \<open>processText\<close> either throws an error with a message (\<open>Inl\<close>) or returns the text of the
  vendor's response (\<open>Inr\<close>).
\<close>

definition handleProcess :: "jsstring + jsstring \<Rightarrow> taskpane \<Rightarrow> taskpane" where
  "handleProcess response tp =
     (let tp = tp\<lparr>errorMessage := None\<rparr> in
      case response of
        Inl message \<Rightarrow> tp\<lparr>errorMessage := Some (ProviderError message)\<rparr>
      | Inr result \<Rightarrow>
          (let tp = tp\<lparr>currentResult :=
                         (case JSON_parse result of
                            Some v \<Rightarrow> v
                          | None \<Rightarrow> JObject [(js ''subject'', JString []), (js ''body'', JString result)])\<rparr>
           in if displayResults_throws (currentResult tp)
              then tp\<lparr>errorMessage := Some TypeError\<rparr>
              else tp))"

definition initial_taskpane :: taskpane where
  \<comment> \<open>\<open>let currentResult = { subject: '', body: '' }\<close>, no error shown\<close>
  "initial_taskpane =
     \<lparr>currentResult = JObject [(js ''subject'', JString []), (js ''body'', JString [])],
      errorMessage = None\<rparr>"

section \<open>Saved prompts (lib/prompt-manager.js over lib/storage.js)\<close>

record prompt =
  id :: jsstring
  name :: jsstring
  instruction :: jsstring

text \<open>
  The \<open>saved_prompts\<close> entry of localStorage. \<open>saved_prompts_item\<close> is \<open>None\<close> when
  \<open>storage.get\<close> yields \<open>null\<close> (no entry, one that does not parse, or a read that throws);
  \<open>setItem_calls\<close> counts the calls of \<open>localStorage.setItem\<close> that \<open>storage.set\<close> has made;
  \<open>setItem_throws\<close> tells for which values \<open>localStorage.setItem\<close> throws (the quota is
  exceeded, the storage is not available).
\<close>

record storage =
  saved_prompts_item :: "prompt list option"
  setItem_calls :: nat
  setItem_throws :: "prompt list \<Rightarrow> bool"

definition getSavedPrompts :: "storage \<Rightarrow> prompt list" where
  "getSavedPrompts st = (case saved_prompts_item st of None \<Rightarrow> [] | Some ps \<Rightarrow> ps)"

text \<open>
  \<open>storage.set\<close> catches what \<open>localStorage.setItem\<close> throws and logs it: the entry then
  stays as it was.
\<close>

definition setSavedPrompts :: "prompt list \<Rightarrow> storage \<Rightarrow> storage" where
  "setSavedPrompts ps st =
     (if setItem_throws st ps
      then st\<lparr>setItem_calls := Suc (setItem_calls st)\<rparr>
      else st\<lparr>saved_prompts_item := Some ps, setItem_calls := Suc (setItem_calls st)\<rparr>)"

definition getAll :: "storage \<Rightarrow> prompt list" where
  "getAll st = getSavedPrompts st"

text \<open>\<open>Array.prototype.findIndex\<close>: the first index whose element satisfies the test.\<close>

fun findIndex :: "('a \<Rightarrow> bool) \<Rightarrow> 'a list \<Rightarrow> nat option" where
  "findIndex P [] = None"
| "findIndex P (x # xs) =
     (if P x then Some 0 else map_option Suc (findIndex P xs))"

definition update :: "jsstring \<Rightarrow> jsstring \<Rightarrow> jsstring \<Rightarrow> storage \<Rightarrow> bool \<times> storage" where
  "update i n ins st =
     (let prompts = getAll st in
      case findIndex (\<lambda>p. id p = i) prompts of
        None \<Rightarrow> (False, st)
      | Some index \<Rightarrow>
          (True,
           setSavedPrompts
             (prompts[index := (prompts ! index)\<lparr>name := trim n, instruction := trim ins\<rparr>])
             st))"

definition delete :: "jsstring \<Rightarrow> storage \<Rightarrow> bool \<times> storage" where
  "delete i st =
     (let prompts = getAll st;
          filtered = filter (\<lambda>p. id p \<noteq> i) prompts
      in if length filtered = length prompts then (False, st)
         else (True, setSavedPrompts filtered st))"

text \<open>
  A store holding two saved prompts, for concrete runs: one that takes every write, and
  one whose every write throws.
\<close>

definition accepting :: "prompt list \<Rightarrow> bool" where
  "accepting ps = False"

definition refusing :: "prompt list \<Rightarrow> bool" where
  "refusing ps = True"

definition two_prompts :: storage where
  "two_prompts =
     \<lparr>saved_prompts_item = Some
        [\<lparr>id = js ''a1'', name = js ''Fix Grammar'', instruction = js ''Fix errors.''\<rparr>,
         \<lparr>id = js ''b2'', name = js ''Summarize'', instruction = js ''Be brief.''\<rparr>],
      setItem_calls = 0,
      setItem_throws = accepting\<rparr>"

definition full_storage :: storage where
  "full_storage = two_prompts\<lparr>setItem_throws := refusing\<rparr>"

section \<open>Concrete documents\<close>

text \<open>
  The tree the HTML parser builds for
  \<open><div>Hello world</div><hr tabindex="-1"><div>From: A Sent: B To: C Subject: D</div>\<close>.
\<close>

definition hello_thread :: "node list" where
  "hello_thread =
     [Element 1 ''div'' [] [Text 2 (js ''Hello world'')],
      Element 3 ''hr'' [(''tabindex'', js ''-1'')] [],
      Element 4 ''div'' [] [Text 5 (js ''From: A Sent: B To: C Subject: D'')]]"

text \<open>A reply with a draft line, a signature block and a quoted message.\<close>

definition reply_doc :: "node list" where
  "reply_doc =
     [Element 1 ''div'' [] [Text 2 (js ''Thanks, will do.'')],
      Element 3 ''div'' [(''id'', js ''Signature'')]
        [Element 4 ''p'' [] [Text 5 (js ''John Doe'')]],
      Element 6 ''div'' [(''id'', js ''divRplyFwdMsg'')] [Text 7 (js ''From: A Sent: B'')],
      Element 8 ''div'' [] [Text 9 (js ''Old message'')]]"

text \<open>A new message as the host opens it, with the signature only, and after some typing.\<close>

definition signature_only :: "node list" where
  "signature_only = [Element 1 ''div'' [] [Text 2 (js ''John Doe, ACME Corp'')]]"

definition typed_above_signature :: "node list" where
  "typed_above_signature =
     [Element 1 ''div'' [] [Text 2 (js ''Hello Bob,'')],
      Element 3 ''div'' [] [Text 4 (js ''John Doe, ACME Corp'')]]"

definition initial_session :: session where
  \<comment> \<open>the module's variables as they are declared\<close>
  "initial_session =
     \<lparr>currentEmailBody = [], currentEmailBodyHtml = [], currentThreadContent = [],
      initialBodyTemplate = None\<rparr>"

section \<open>Properties of the matcher\<close>

text \<open>A literal under the \<open>i\<close> flag matches where the input starts with it.\<close>

lemma rmatch_lit_i:
  "rmatch (lit_i L) (MState b s c) =
     (if starts_i L s then [MState (rev (take (length L) s) @ b) (drop (length L) s) c] else [])"
proof (induction L arbitrary: b s)
  case Nil
  then show ?case by (simp add: lit_i_def starts_i_def)
next
  case (Cons p ps)
  have unfold: "lit_i (p # ps) = Seq (Chr (ci p)) (lit_i ps)"
    by (simp add: lit_i_def)
  show ?case
  proof (cases s)
    case Nil
    then show ?thesis by (simp add: unfold starts_i_def)
  next
    case (Cons x xs)
    have st: "starts_i (p # ps) (x # xs) \<longleftrightarrow> ci p x \<and> starts_i ps xs"
      by (auto simp: starts_i_def ci_def)
    show ?thesis
      using Cons.IH [of "x # b" xs] by (simp add: unfold Cons st)
  qed
qed

text \<open>\<open>[\s\S]*\<close> first runs to the end of the input.\<close>

lemma rmatch_star_any_step:
  "rmatch (Star (Chr any_cu)) (MState b (x # xs) c) =
     rmatch (Star (Chr any_cu)) (MState (x # b) xs c) @ [MState b (x # xs) c]"
  by (subst rmatch.simps(5)) (simp add: any_cu_def del: rmatch.simps(5))

lemma rmatch_star_any:
  "\<exists>xs. rmatch (Star (Chr any_cu)) (MState b s c) = MState (rev s @ b) [] c # xs"
proof (induction s arbitrary: b)
  case Nil
  then show ?case by simp
next
  case (Cons x xs)
  from Cons [of "x # b"] obtain ys where
    "rmatch (Star (Chr any_cu)) (MState (x # b) xs c) = MState (rev xs @ x # b) [] c # ys"
    by blast
  then show ?case by (simp add: rmatch_star_any_step del: rmatch.simps(5))
qed

text \<open>A phrase pattern matches first at the first place where a line starts with the phrase.\<close>

lemma rmatch_sig_phrase:
  "\<not> starts_i (10 # p) s \<Longrightarrow> rmatch (sig_phrase p) (MState b s c) = []"
  "starts_i (10 # p) s \<Longrightarrow> \<exists>xs. rmatch (sig_phrase p) (MState b s c) = MState (rev s @ b) [] c # xs"
proof -
  show "\<not> starts_i (10 # p) s \<Longrightarrow> rmatch (sig_phrase p) (MState b s c) = []"
    by (simp add: sig_phrase_def rmatch_lit_i del: rmatch.simps(5))
  assume st: "starts_i (10 # p) s"
  from rmatch_star_any [of "rev (take (length (10 # p)) s) @ b" "drop (length (10 # p)) s" c]
  obtain xs where xs: "rmatch (Star (Chr any_cu))
       (MState (rev (take (length (10 # p)) s) @ b) (drop (length (10 # p)) s) c) =
       MState (rev (drop (length (10 # p)) s) @ rev (take (length (10 # p)) s) @ b) [] c # xs"
    by blast
  have "rev (drop (length (10 # p)) s) @ rev (take (length (10 # p)) s) = rev s"
    by (metis append_take_drop_id rev_append)
  with xs st show "\<exists>xs. rmatch (sig_phrase p) (MState b s c) = MState (rev s @ b) [] c # xs"
    by (simp add: sig_phrase_def rmatch_lit_i del: rmatch.simps(5))
qed

lemma exec_from_sig_phrase_first:
  "starts_i (10 # p) (drop k s) \<Longrightarrow> k \<le> length s \<Longrightarrow>
   (\<forall>i < k. \<not> starts_i (10 # p) (drop i s)) \<Longrightarrow>
   exec_from (sig_phrase p) b s = Some (rev (take k s) @ b, MState (rev s @ b) [] None)"
proof (induction s arbitrary: b k)
  case Nil
  then obtain xs where "rmatch (sig_phrase p) (MState b [] None) = MState (rev [] @ b) [] None # xs"
    using rmatch_sig_phrase(2) [of p "[]" b None] by auto
  then show ?case by simp
next
  case (Cons x xs)
  show ?case
  proof (cases k)
    case 0
    with Cons.prems obtain ys where
      "rmatch (sig_phrase p) (MState b (x # xs) None) = MState (rev (x # xs) @ b) [] None # ys"
      using rmatch_sig_phrase(2) [of p "x # xs" b None] by auto
    with 0 show ?thesis by simp
  next
    case (Suc k')
    with Cons.prems have here: "\<not> starts_i (10 # p) (x # xs)"
      by (metis drop0 zero_less_Suc)
    from Suc Cons.prems have a: "starts_i (10 # p) (drop k' xs)" and b: "k' \<le> length xs"
      by simp_all
    from Suc Cons.prems have c: "\<forall>i < k'. \<not> starts_i (10 # p) (drop i xs)"
      by (metis Suc_less_eq drop_Suc_Cons)
    from Cons.IH [OF a b c, of "x # b"] here Suc show ?thesis
      by (simp add: rmatch_sig_phrase(1))
  qed
qed

text \<open>
  Replacing every match of a literal: a stretch of text that no match can touch stays, and
  the text on either side is replaced as if it stood alone.
\<close>

declare replace_all_from.simps [simp del]

lemma replace_lit_Nil:
  "L \<noteq> [] \<Longrightarrow> replace_all_from (lit_i L) [RLit x] b [] = []"
  by (simp add: replace_all_from.simps(1) rmatch_lit_i starts_i_def)

lemma replace_lit_Cons:
  "L \<noteq> [] \<Longrightarrow>
   replace_all_from (lit_i L) [RLit x] b (c # cs) =
     (if starts_i L (c # cs)
      then x @ replace_all_from (lit_i L) [RLit x] (rev (take (length L) (c # cs)) @ b)
                 (drop (length L) (c # cs))
      else c # replace_all_from (lit_i L) [RLit x] (c # b) cs)"
proof (cases "starts_i L (c # cs)")
  case True
  assume "L \<noteq> []"
  then have "length (drop (length L) (c # cs)) < length (c # cs)"
    by (cases L) (simp_all add: le_imp_less_Suc)
  with True show ?thesis
    by (simp add: replace_all_from.simps(2) rmatch_lit_i del: drop_Suc_Cons length_drop)
next
  case False
  then show ?thesis
    by (simp add: replace_all_from.simps(2) rmatch_lit_i)
qed

lemma replace_lit_before:
  "L \<noteq> [] \<Longrightarrow>
   replace_all_from (lit_i L) [RLit x] b s = replace_all_from (lit_i L) [RLit x] b' s"
proof (induction "length s" arbitrary: s b b' rule: less_induct)
  case less
  show ?case
  proof (cases s)
    case Nil
    with less.prems show ?thesis by (simp add: replace_lit_Nil)
  next
    case (Cons c cs)
    from less.prems have "length (drop (length L) (c # cs)) < length s"
      by (cases L) (simp_all add: Cons le_imp_less_Suc)
    from less.hyps [OF this less.prems] less.hyps [of cs, OF _ less.prems]
    show ?thesis
      by (simp only: Cons replace_lit_Cons [OF less.prems]) (simp add: Cons)
  qed
qed

lemma take_drop_within:
  "n \<le> length xs \<Longrightarrow> drop n (xs @ ys) = drop n xs @ ys \<and> take n (xs @ ys) = take n xs"
  by simp

lemma starts_i_nth:
  assumes "starts_i L w" and "i < length L"
  shows "ci (L ! i) (w ! i)"
proof -
  from assms have lw: "i < length w" and eq: "map canonicalize (take (length L) w) = map canonicalize L"
    by (simp_all add: starts_i_def)
  from assms lw have "i < length (take (length L) w)"
    by simp
  then have "map canonicalize (take (length L) w) ! i = canonicalize (take (length L) w ! i)"
    by (rule nth_map)
  also from assms(2) have "take (length L) w ! i = w ! i"
    by simp
  finally have "canonicalize (w ! i) = map canonicalize L ! i"
    using eq by simp
  with assms(2) show ?thesis
    by (simp add: ci_def)
qed

lemma starts_i_append:
  assumes "\<forall>l \<in> set L. \<not> ci l (hd tok)" and "tok \<noteq> []"
  shows "starts_i L (p @ tok @ q) \<longleftrightarrow> starts_i L p"
proof (cases "length L \<le> length p")
  case True
  then show ?thesis by (simp add: starts_i_def)
next
  case False
  then have short: "length p < length L" by simp
  have "\<not> starts_i L (p @ tok @ q)"
  proof
    assume "starts_i L (p @ tok @ q)"
    from starts_i_nth [OF this short] have "ci (L ! length p) ((p @ tok @ q) ! length p)" .
    moreover from assms(2) have "(p @ tok @ q) ! length p = hd tok"
      by (cases tok) (simp_all add: nth_append)
    ultimately have "ci (L ! length p) (hd tok)"
      by simp
    with assms(1) short show False
      by (metis nth_mem)
  qed
  moreover from short have "\<not> starts_i L p"
    by (simp add: starts_i_def)
  ultimately show ?thesis by simp
qed

lemma replace_lit_token:
  assumes L: "L \<noteq> []" and inert: "\<forall>c \<in> set tok. \<not> ci (hd L) c"
  shows "replace_all_from (lit_i L) [RLit x] b (tok @ q) =
         tok @ replace_all_from (lit_i L) [RLit x] b q"
  using inert
proof (induction tok arbitrary: b)
  case Nil
  then show ?case by simp
next
  case (Cons c cs)
  from Cons.prems L have "\<not> starts_i L (c # cs @ q)"
    by (cases L) (auto simp: starts_i_def ci_def)
  with Cons show ?case
    using replace_lit_before [OF L, of x "c # b" q b]
    by (simp add: replace_lit_Cons [OF L])
qed

lemma replace_lit_around:
  assumes L: "L \<noteq> []"
    and inert: "\<forall>c \<in> set tok. \<not> ci (hd L) c"
    and first: "\<forall>l \<in> set L. \<not> ci l (hd tok)"
    and tok: "tok \<noteq> []"
  shows "replace_all_from (lit_i L) [RLit x] b (p @ tok @ q) =
         replace_all_from (lit_i L) [RLit x] b p @ tok @ replace_all_from (lit_i L) [RLit x] b q"
proof (induction "length p" arbitrary: p b rule: less_induct)
  case less
  show ?case
  proof (cases p)
    case Nil
    then show ?thesis
      by (simp add: replace_lit_token [OF L inert] replace_lit_Nil [OF L])
  next
    case (Cons c cs)
    have st: "starts_i L ((c # cs) @ tok @ q) \<longleftrightarrow> starts_i L (c # cs)"
      by (rule starts_i_append [OF first tok])
    show ?thesis
    proof (cases "starts_i L (c # cs)")
      case True
      then have ll: "length L \<le> length (c # cs)"
        by (simp add: starts_i_def)
      from take_drop_within [OF this, of "tok @ q"]
      have dr: "drop (length L) ((c # cs) @ tok @ q) = drop (length L) (c # cs) @ tok @ q"
        and tk: "take (length L) ((c # cs) @ tok @ q) = take (length L) (c # cs)"
        by blast+
      from L have "length (drop (length L) (c # cs)) < length p"
        by (cases L) (simp_all add: Cons le_imp_less_Suc)
      from less.hyps [OF this, of "rev (take (length L) (c # cs)) @ b"]
      have "replace_all_from (lit_i L) [RLit x] (rev (take (length L) (c # cs)) @ b)
              (drop (length L) (c # cs) @ tok @ q) =
            replace_all_from (lit_i L) [RLit x] (rev (take (length L) (c # cs)) @ b)
              (drop (length L) (c # cs))
            @ tok @ replace_all_from (lit_i L) [RLit x] b q"
        using replace_lit_before [OF L, of x "rev (take (length L) (c # cs)) @ b" q b]
        by simp
      with True st dr tk show ?thesis
        using replace_lit_Cons [OF L, of x b c "cs @ tok @ q"] replace_lit_Cons [OF L, of x b c cs]
        by (simp add: Cons)
    next
      case False
      from less.hyps [of cs "c # b"]
      have "replace_all_from (lit_i L) [RLit x] (c # b) (cs @ tok @ q) =
            replace_all_from (lit_i L) [RLit x] (c # b) cs
            @ tok @ replace_all_from (lit_i L) [RLit x] b q"
        using replace_lit_before [OF L, of x "c # b" q b]
        by (simp add: Cons)
      with False st show ?thesis
        using replace_lit_Cons [OF L, of x b c "cs @ tok @ q"] replace_lit_Cons [OF L, of x b c cs]
        by (simp add: Cons)
    qed
  qed
qed

lemma replace_all_lit_around:
  assumes "L \<noteq> []"
    and "\<forall>c \<in> set tok. \<not> ci (hd L) c"
    and "\<forall>l \<in> set L. \<not> ci l (hd tok)"
    and "tok \<noteq> []"
  shows "replace_all (lit_i L) [RLit x] (p @ tok @ q) =
         replace_all (lit_i L) [RLit x] p @ tok @ replace_all (lit_i L) [RLit x] q"
  unfolding replace_all_def by (rule replace_lit_around [OF assms])

subsection \<open>What a match consumes\<close>

text \<open>
  The equations of \<open>Star\<close> and \<open>LazyStar\<close> unfold without end, so they are taken out of
  the simplifier and applied by hand.
\<close>

declare rmatch.simps(5,6) [simp del]

lemma rmatch_lit:
  "rmatch (lit L) (MState b s c) =
     (if length L \<le> length s \<and> take (length L) s = L
      then [MState (rev L @ b) (drop (length L) s) c] else [])"
proof (induction L arbitrary: b s)
  case Nil
  then show ?case by (simp add: lit_def)
next
  case (Cons p ps)
  have unfold: "lit (p # ps) = Seq (Chr (chr p)) (lit ps)"
    by (simp add: lit_def)
  show ?case
  proof (cases s)
    case Nil
    then show ?thesis by (simp add: unfold)
  next
    case (Cons x xs)
    show ?thesis
      using Cons.IH [of "x # b" xs] by (auto simp: unfold Cons chr_def)
  qed
qed

lemma rmatch_lazy_chr_Nil:
  "rmatch (LazyStar (Chr P)) (MState b [] c) = [MState b [] c]"
  by (subst rmatch.simps(6)) (simp del: rmatch.simps(6))

lemma rmatch_lazy_chr_Cons:
  "rmatch (LazyStar (Chr P)) (MState b (x # xs) c) =
     MState b (x # xs) c
     # (if P x then rmatch (LazyStar (Chr P)) (MState (x # b) xs c) else [])"
  by (subst rmatch.simps(6)) (simp del: rmatch.simps(6))

lemma rmatch_star_chr_Nil:
  "rmatch (Star (Chr P)) (MState b [] c) = [MState b [] c]"
  by (subst rmatch.simps(5)) (simp del: rmatch.simps(5))

lemma rmatch_star_chr_Cons:
  "rmatch (Star (Chr P)) (MState b (x # xs) c) =
     (if P x then rmatch (Star (Chr P)) (MState (x # b) xs c) else [])
     @ [MState b (x # xs) c]"
  by (subst rmatch.simps(5)) (simp del: rmatch.simps(5))

text \<open>What a run of one class consumes.\<close>

lemma lazy_chr_sound:
  "st \<in> set (rmatch (LazyStar (Chr P)) (MState b s c)) \<Longrightarrow>
   \<exists>w r. s = w @ r \<and> (\<forall>x \<in> set w. P x) \<and> st = MState (rev w @ b) r c"
proof (induction s arbitrary: b)
  case Nil
  then show ?case by (simp add: rmatch_lazy_chr_Nil)
next
  case (Cons x xs)
  from Cons.prems have "st = MState b (x # xs) c
    \<or> (P x \<and> st \<in> set (rmatch (LazyStar (Chr P)) (MState (x # b) xs c)))"
    by (simp add: rmatch_lazy_chr_Cons split: if_splits)
  then show ?case
  proof (elim disjE conjE)
    assume "st = MState b (x # xs) c"
    then show ?thesis by (intro exI [of _ "[]"] exI [of _ "x # xs"]) simp
  next
    assume px: "P x" and "st \<in> set (rmatch (LazyStar (Chr P)) (MState (x # b) xs c))"
    from Cons.IH [OF this(2)] obtain w r where
      "xs = w @ r" "\<forall>x \<in> set w. P x" "st = MState (rev w @ x # b) r c"
      by blast
    with px show ?thesis
      by (intro exI [of _ "x # w"] exI [of _ r]) simp
  qed
qed

lemma star_chr_sound:
  "st \<in> set (rmatch (Star (Chr P)) (MState b s c)) \<Longrightarrow>
   \<exists>w r. s = w @ r \<and> (\<forall>x \<in> set w. P x) \<and> st = MState (rev w @ b) r c"
proof (induction s arbitrary: b)
  case Nil
  then show ?case by (simp add: rmatch_star_chr_Nil)
next
  case (Cons x xs)
  from Cons.prems have "st = MState b (x # xs) c
    \<or> (P x \<and> st \<in> set (rmatch (Star (Chr P)) (MState (x # b) xs c)))"
    by (simp add: rmatch_star_chr_Cons split: if_splits)
  then show ?case
  proof (elim disjE conjE)
    assume "st = MState b (x # xs) c"
    then show ?thesis by (intro exI [of _ "[]"] exI [of _ "x # xs"]) simp
  next
    assume px: "P x" and "st \<in> set (rmatch (Star (Chr P)) (MState (x # b) xs c))"
    from Cons.IH [OF this(2)] obtain w r where
      "xs = w @ r" "\<forall>x \<in> set w. P x" "st = MState (rev w @ x # b) r c"
      by blast
    with px show ?thesis
      by (intro exI [of _ "x # w"] exI [of _ r]) simp
  qed
qed

lemma chr_sound:
  "st \<in> set (rmatch (Chr P) (MState b s c)) \<Longrightarrow>
   \<exists>x r. s = x # r \<and> P x \<and> st = MState (x # b) r c"
  by (cases s) (auto split: if_splits)

lemma lazy_plus_sound:
  assumes "st \<in> set (rmatch (LazyPlus (Chr P)) (MState b s c))"
  shows "\<exists>w r. s = w @ r \<and> w \<noteq> [] \<and> (\<forall>x \<in> set w. P x) \<and> st = MState (rev w @ b) r c"
proof -
  from assms obtain st1 where st1: "st1 \<in> set (rmatch (Chr P) (MState b s c))"
    and st: "st \<in> set (rmatch (LazyStar (Chr P)) st1)"
    by (auto simp: LazyPlus_def simp del: rmatch.simps(2,6))
  from chr_sound [OF st1] obtain x r where x: "s = x # r" "P x" "st1 = MState (x # b) r c"
    by blast
  from lazy_chr_sound [OF st [unfolded x(3)]] obtain w r' where
    "r = w @ r'" "\<forall>x \<in> set w. P x" "st = MState (rev w @ x # b) r' c"
    by blast
  with x show ?thesis
    by (intro exI [of _ "x # w"] exI [of _ r']) simp
qed

lemma plus_sound:
  assumes "st \<in> set (rmatch (Plus (Chr P)) (MState b s c))"
  shows "\<exists>w r. s = w @ r \<and> w \<noteq> [] \<and> (\<forall>x \<in> set w. P x) \<and> st = MState (rev w @ b) r c"
proof -
  from assms obtain st1 where st1: "st1 \<in> set (rmatch (Chr P) (MState b s c))"
    and st: "st \<in> set (rmatch (Star (Chr P)) st1)"
    by (auto simp: Plus_def simp del: rmatch.simps(2,5))
  from chr_sound [OF st1] obtain x r where x: "s = x # r" "P x" "st1 = MState (x # b) r c"
    by blast
  from star_chr_sound [OF st [unfolded x(3)]] obtain w r' where
    "r = w @ r'" "\<forall>x \<in> set w. P x" "st = MState (rev w @ x # b) r' c"
    by blast
  with x show ?thesis
    by (intro exI [of _ "x # w"] exI [of _ r']) simp
qed

text \<open>The captured text of a group around such a run.\<close>

lemma group_lazy_plus_sound:
  assumes "st \<in> set (rmatch (Group (LazyPlus (Chr P))) (MState b s c))"
  shows "\<exists>w r. s = w @ r \<and> w \<noteq> [] \<and> (\<forall>x \<in> set w. P x) \<and> st = MState (rev w @ b) r (Some w)"
proof -
  from assms obtain st1 where st1: "st1 \<in> set (rmatch (LazyPlus (Chr P)) (MState b s c))"
    and st: "st = MState (before st1) (rest st1) (Some (take (length s - length (rest st1)) s))"
    by auto
  from lazy_plus_sound [OF st1] obtain w r where
    "s = w @ r" "w \<noteq> []" "\<forall>x \<in> set w. P x" "st1 = MState (rev w @ b) r c"
    by blast
  with st show ?thesis
    by (intro exI [of _ w] exI [of _ r]) simp
qed

lemma group_plus_sound:
  assumes "st \<in> set (rmatch (Group (Plus (Chr P))) (MState b s c))"
  shows "\<exists>w r. s = w @ r \<and> w \<noteq> [] \<and> (\<forall>x \<in> set w. P x) \<and> st = MState (rev w @ b) r (Some w)"
proof -
  from assms obtain st1 where st1: "st1 \<in> set (rmatch (Plus (Chr P)) (MState b s c))"
    and st: "st = MState (before st1) (rest st1) (Some (take (length s - length (rest st1)) s))"
    by auto
  from plus_sound [OF st1] obtain w r where
    "s = w @ r" "w \<noteq> []" "\<forall>x \<in> set w. P x" "st1 = MState (rev w @ b) r c"
    by blast
  with st show ?thesis
    by (intro exI [of _ w] exI [of _ r]) simp
qed

lemma append_split_le:
  assumes "xs @ ys = zs @ ws" and "length xs \<le> length zs"
  shows "\<exists>m. zs = xs @ m \<and> ys = m @ ws"
proof -
  from assms(1) have "take (length xs) (zs @ ws) = xs" and "drop (length xs) (zs @ ws) = ys"
    by (metis append_eq_conv_conj)+
  with assms(2) have "xs = take (length xs) zs" and "ys = drop (length xs) zs @ ws"
    by simp_all
  then show ?thesis
    by (metis append_take_drop_id)
qed

text \<open>
  Where a token can lie when the text around it is an opening mark, a captured text, a
  closing mark and a rest: after the match, inside the captured text, or across the end of
  the captured text.
\<close>

lemma span_cases:
  assumes eq: "p @ tok @ q = d1 @ cap @ d2 @ r"
    and tok: "tok \<noteq> []"
    and h1: "hd tok \<notin> set d1"
    and h2: "hd tok \<notin> set d2"
  shows "(\<exists>p'. p = d1 @ cap @ d2 @ p' \<and> r = p' @ tok @ q)
         \<or> (\<exists>u v. cap = u @ tok @ v \<and> p = d1 @ u)
         \<or> (\<exists>u t1 t2. tok = t1 @ t2 \<and> t1 \<noteq> [] \<and> t2 \<noteq> [] \<and> p = d1 @ u \<and> cap = u @ t1
              \<and> t2 @ q = d2 @ r)"
proof -
  have a1: "length d1 \<le> length p"
  proof (rule ccontr)
    assume "\<not> length d1 \<le> length p"
    then have l: "length p < length d1" by simp
    with eq have "(p @ tok @ q) ! length p = d1 ! length p"
      by (simp add: nth_append)
    moreover from tok have "(p @ tok @ q) ! length p = hd tok"
      by (cases tok) (simp_all add: nth_append)
    ultimately show False
      using h1 l by (metis nth_mem)
  qed
  from append_split_le [OF eq [symmetric] a1] obtain u where u: "p = d1 @ u" "cap @ d2 @ r = u @ tok @ q"
    by blast
  show ?thesis
  proof (cases "length (cap @ d2) \<le> length u")
    case True
    with u(2) have "(cap @ d2) @ r = u @ tok @ q" by simp
    from append_split_le [OF this] True obtain p' where "u = (cap @ d2) @ p'" "r = p' @ tok @ q"
      by blast
    with u(1) show ?thesis by simp
  next
    case False
    then have lu: "length u < length cap + length d2" by simp
    have a2: "length u < length cap"
    proof (rule ccontr)
      assume "\<not> length u < length cap"
      then have c: "length cap \<le> length u" by simp
      from append_split_le [OF u(2) c] obtain m where m: "u = cap @ m" "d2 @ r = m @ tok @ q"
        by blast
      with lu have "length m < length d2" by simp
      with m(2) have "(m @ tok @ q) ! length m = d2 ! length m"
        by (metis nth_append)
      moreover from tok have "(m @ tok @ q) ! length m = hd tok"
        by (cases tok) (simp_all add: nth_append)
      ultimately show False
        using h2 \<open>length m < length d2\<close> by (metis nth_mem)
    qed
    from append_split_le [OF u(2) [symmetric]] a2 obtain w where w: "cap = u @ w" "tok @ q = w @ d2 @ r"
      by (metis less_imp_le)
    from a2 w(1) have wne: "w \<noteq> []" by auto
    show ?thesis
    proof (cases "length tok \<le> length w")
      case True
      from append_split_le [OF w(2) True] obtain v where "w = tok @ v"
        by blast
      with w(1) u(1) show ?thesis by auto
    next
      case False
      then have "length w \<le> length tok" by simp
      from append_split_le [OF w(2) [symmetric] this] obtain t2 where t2: "tok = w @ t2" "d2 @ r = t2 @ q"
        by blast
      with False have "t2 \<noteq> []" by auto
      with t2 wne w(1) u(1) show ?thesis
        by (intro disjI2) (metis)
    qed
  qed
qed

lemma seq_mem:
  "st \<in> set (rmatch (Seq r1 r2) st0) \<longleftrightarrow> (\<exists>st1 \<in> set (rmatch r1 st0). st \<in> set (rmatch r2 st1))"
  by auto

lemma not_behind_mem:
  "st \<in> set (rmatch (NotBehind P) (MState b s c)) \<longleftrightarrow>
     st = MState b s c \<and> (b = [] \<or> \<not> P (hd b))"
  by (cases b) auto

lemma not_ahead_chr_mem:
  "st \<in> set (rmatch (NotAhead (Chr P)) (MState b s c)) \<longleftrightarrow>
     st = MState b s c \<and> (s = [] \<or> \<not> P (hd s))"
  by (cases s) auto

lemma lit_mem:
  "st \<in> set (rmatch (lit L) (MState b s c)) \<longleftrightarrow>
     (\<exists>r. s = L @ r \<and> st = MState (rev L @ b) r c)"
proof -
  have "(length L \<le> length s \<and> take (length L) s = L) \<longleftrightarrow> (\<exists>r. s = L @ r)"
    by (metis append_eq_conv_conj append_take_drop_id length_append le_add1)
  then show ?thesis
    by (auto simp: rmatch_lit)
qed

text \<open>The shape of a match of the bold rules and of the italic rules.\<close>

lemma bold_shape:
  assumes "st \<in> set (rmatch (seqs [lit [d, d], Group (LazyPlus (Chr dot)), lit [d, d]])
                          (MState b s c0))"
  shows "\<exists>cap r. s = [d, d] @ cap @ [d, d] @ r \<and> cap \<noteq> []
           \<and> st = MState (rev ([d, d] @ cap @ [d, d]) @ b) r (Some cap)"
proof -
  from assms obtain st1 st2 where
    1: "st1 \<in> set (rmatch (lit [d, d]) (MState b s c0))"
    and 2: "st2 \<in> set (rmatch (Group (LazyPlus (Chr dot))) st1)"
    and 3: "st \<in> set (rmatch (lit [d, d]) st2)"
    by (auto simp only: seqs.simps seq_mem rmatch.simps(1) list.set singleton_iff)
  from 1 obtain r1 where r1: "s = [d, d] @ r1" "st1 = MState (rev [d, d] @ b) r1 c0"
    by (auto simp only: lit_mem)
  from group_lazy_plus_sound [OF 2 [unfolded r1(2)]] obtain cap r2 where
    r2: "r1 = cap @ r2" "cap \<noteq> []" "st2 = MState (rev cap @ rev [d, d] @ b) r2 (Some cap)"
    by blast
  from 3 [unfolded r2(3)] obtain r where
    r: "r2 = [d, d] @ r" "st = MState (rev [d, d] @ rev cap @ rev [d, d] @ b) r (Some cap)"
    by (auto simp only: lit_mem)
  from r1 r2 r show ?thesis
    by (intro exI [of _ cap] exI [of _ r]) simp
qed

lemma italic_shape:
  assumes "st \<in> set (rmatch (seqs [NotBehind (chr d), Chr (chr d), NotAhead (Chr (chr d)),
                                   Group (LazyPlus (Chr dot)),
                                   NotBehind (chr d), Chr (chr d), NotAhead (Chr (chr d))])
                          (MState b s c0))"
  shows "\<exists>cap r. s = d # cap @ d # r \<and> cap \<noteq> [] \<and> (\<forall>x \<in> set cap. \<not> is_lt x)
           \<and> (b = [] \<or> hd b \<noteq> d) \<and> hd cap \<noteq> d \<and> last cap \<noteq> d \<and> (r = [] \<or> hd r \<noteq> d)
           \<and> st = MState (rev (d # cap @ [d]) @ b) r (Some cap)"
proof -
  from assms obtain st1 st2 st3 st4 st5 st6 where
    1: "st1 \<in> set (rmatch (NotBehind (chr d)) (MState b s c0))"
    and 2: "st2 \<in> set (rmatch (Chr (chr d)) st1)"
    and 3: "st3 \<in> set (rmatch (NotAhead (Chr (chr d))) st2)"
    and 4: "st4 \<in> set (rmatch (Group (LazyPlus (Chr dot))) st3)"
    and 5: "st5 \<in> set (rmatch (NotBehind (chr d)) st4)"
    and 6: "st6 \<in> set (rmatch (Chr (chr d)) st5)"
    and 7: "st \<in> set (rmatch (NotAhead (Chr (chr d))) st6)"
    by (auto simp only: seqs.simps seq_mem rmatch.simps(1) list.set singleton_iff)
  from 1 have s1: "st1 = MState b s c0" and b: "b = [] \<or> hd b \<noteq> d"
    by (auto simp only: not_behind_mem chr_def)
  from chr_sound [OF 2 [unfolded s1]] obtain r1 where
    r1: "s = d # r1" "st2 = MState (d # b) r1 c0"
    by (auto simp: chr_def)
  from 3 [unfolded r1(2)] have s3: "st3 = MState (d # b) r1 c0" and n3: "r1 = [] \<or> hd r1 \<noteq> d"
    by (auto simp only: not_ahead_chr_mem chr_def)
  from group_lazy_plus_sound [OF 4 [unfolded s3]] obtain cap r2 where
    r2: "r1 = cap @ r2" "cap \<noteq> []" "\<forall>x \<in> set cap. dot x"
      "st4 = MState (rev cap @ d # b) r2 (Some cap)"
    by blast
  from 5 [unfolded r2(4)] have s5: "st5 = MState (rev cap @ d # b) r2 (Some cap)"
    and n5: "hd (rev cap @ d # b) \<noteq> d"
    by (auto simp only: not_behind_mem chr_def)
  from chr_sound [OF 6 [unfolded s5]] obtain r where
    r: "r2 = d # r" "st6 = MState (d # rev cap @ d # b) r (Some cap)"
    by (auto simp: chr_def)
  from 7 [unfolded r(2)] have s7: "st = MState (d # rev cap @ d # b) r (Some cap)"
    and n7: "r = [] \<or> hd r \<noteq> d"
    by (auto simp only: not_ahead_chr_mem chr_def)
  from r2(2) n5 have lc: "last cap \<noteq> d"
    by (simp add: hd_append hd_rev)
  from r2(1,2) n3 have hc: "hd cap \<noteq> d"
    by (cases cap) auto
  from r1 r2 r s7 b n7 lc hc show ?thesis
    by (intro exI [of _ cap] exI [of _ r]) (simp add: dot_def)
qed

subsection \<open>Text that a global replacement leaves alone\<close>

text \<open>
  A pass of a global replace keeps a token when no match can start inside the token and a
  match that starts before it either ends before it or holds it in the text it puts back.
\<close>

lemma replace_step_none:
  "rmatch R (MState b (c # cs) None) = [] \<Longrightarrow>
   replace_all_from R rp b (c # cs) = c # replace_all_from R rp (c # b) cs"
  by (simp add: replace_all_from.simps(2))

lemma replace_step_match:
  "rmatch R (MState b (c # cs) None) = st # x \<Longrightarrow>
   \<exists>z. replace_all_from R rp b (c # cs) = expand rp (cap1 st) @ z"
  by (simp add: replace_all_from.simps(2))

lemma replace_step_jump:
  "rmatch R (MState b (c # cs) None) = st # x \<Longrightarrow> length (rest st) < length (c # cs) \<Longrightarrow>
   replace_all_from R rp b (c # cs) =
     expand rp (cap1 st) @ replace_all_from R rp (before st) (rest st)"
  by (simp add: replace_all_from.simps(2))

lemma scan_through:
  assumes inside: "\<And>t1 t2. tok = t1 @ t2 \<Longrightarrow> t1 \<noteq> [] \<Longrightarrow> t2 \<noteq> [] \<Longrightarrow>
                     rmatch R (MState (rev t1 @ b0) (t2 @ q) None) = []"
  shows "tok = t1 @ t2 \<Longrightarrow> t1 \<noteq> [] \<Longrightarrow>
         replace_all_from R rp (rev t1 @ b0) (t2 @ q) = t2 @ replace_all_from R rp (rev tok @ b0) q"
proof (induction t2 arbitrary: t1)
  case Nil
  then show ?case by simp
next
  case (Cons c cs)
  from inside [OF Cons.prems(1) Cons.prems(2)]
  have "rmatch R (MState (rev t1 @ b0) ((c # cs) @ q) None) = []"
    by simp
  then have "replace_all_from R rp (rev t1 @ b0) ((c # cs) @ q) =
             c # replace_all_from R rp (c # rev t1 @ b0) (cs @ q)"
    by (simp add: replace_step_none)
  moreover from Cons.IH [of "t1 @ [c]"] Cons.prems
  have "replace_all_from R rp (rev (t1 @ [c]) @ b0) (cs @ q) =
        cs @ replace_all_from R rp (rev tok @ b0) q"
    by simp
  ultimately show ?case by simp
qed

lemma scan_keeps:
  assumes tok: "tok \<noteq> []"
    and before: "\<And>b p st x. G (rev b @ p) \<Longrightarrow> rmatch R (MState b (p @ tok @ q) None) = st # x \<Longrightarrow>
                   (\<exists>m p'. m \<noteq> [] \<and> p = m @ p' \<and> rest st = p' @ tok @ q \<and> before st = rev m @ b)
                   \<or> (\<exists>u v. expand rp (cap1 st) = u @ tok @ v)"
    and inside: "\<And>b0 t1 t2. G (rev b0) \<Longrightarrow> tok = t1 @ t2 \<Longrightarrow> t1 \<noteq> [] \<Longrightarrow> t2 \<noteq> [] \<Longrightarrow>
                   rmatch R (MState (rev t1 @ b0) (t2 @ q) None) = []"
  shows "G (rev b @ p) \<Longrightarrow> \<exists>u v. replace_all_from R rp b (p @ tok @ q) = u @ tok @ v"
proof (induction "length p" arbitrary: p b rule: less_induct)
  case less
  obtain c cs where s: "p @ tok @ q = c # cs"
    using tok by (cases "p @ tok @ q") auto
  show ?case
  proof (cases "rmatch R (MState b (p @ tok @ q) None)")
    case Nil
    show ?thesis
    proof (cases p)
      case pn: Nil
      from tok obtain t ts where t: "tok = t # ts" by (cases tok) auto
      from Nil pn t have "replace_all_from R rp b (tok @ q) =
                          t # replace_all_from R rp (t # b) (ts @ q)"
        by (simp add: replace_step_none)
      moreover from less.prems pn have g: "G (rev b)" by simp
      have "replace_all_from R rp (rev [t] @ b) (ts @ q) =
            ts @ replace_all_from R rp (rev tok @ b) q"
        by (rule scan_through [OF inside [OF g]]) (simp_all add: t)
      ultimately have "replace_all_from R rp b (tok @ q) =
                       [] @ tok @ replace_all_from R rp (rev tok @ b) q"
        by (simp add: t)
      with pn show ?thesis by (metis append_Nil)
    next
      case (Cons d ds)
      from Nil Cons have "replace_all_from R rp b (p @ tok @ q) =
                          d # replace_all_from R rp (d # b) (ds @ tok @ q)"
        by (simp add: replace_step_none)
      moreover have "length ds < length p" and "G (rev (d # b) @ ds)"
        using less.prems Cons by simp_all
      from less.hyps [OF this]
      obtain u v where "replace_all_from R rp (d # b) (ds @ tok @ q) = u @ tok @ v"
        by blast
      ultimately have "replace_all_from R rp b (p @ tok @ q) = (d # u) @ tok @ v"
        by simp
      then show ?thesis by blast
    qed
  next
    case (Cons st x)
    from before [OF less.prems Cons] show ?thesis
    proof (elim disjE exE conjE)
      fix m p'
      assume m: "m \<noteq> []" "p = m @ p'" "rest st = p' @ tok @ q" "before st = rev m @ b"
      then have "length (rest st) < length (p @ tok @ q)"
        by simp
      with s have "length (rest st) < length (c # cs)"
        by simp
      with Cons s have "replace_all_from R rp b (p @ tok @ q) =
                        expand rp (cap1 st) @ replace_all_from R rp (before st) (rest st)"
        by (simp add: replace_step_jump)
      moreover have "length p' < length p" and "G (rev (rev m @ b) @ p')"
        using less.prems m by simp_all
      from less.hyps [OF this]
      obtain u v where "replace_all_from R rp (rev m @ b) (p' @ tok @ q) = u @ tok @ v"
        by blast
      ultimately have "replace_all_from R rp b (p @ tok @ q) = (expand rp (cap1 st) @ u) @ tok @ v"
        using m by simp
      then show ?thesis by blast
    next
      fix u v
      assume e: "expand rp (cap1 st) = u @ tok @ v"
      from Cons s have "rmatch R (MState b (c # cs) None) = st # x"
        by simp
      from replace_step_match [OF this, of rp] s
      obtain z where "replace_all_from R rp b (p @ tok @ q) = expand rp (cap1 st) @ z"
        by auto
      with e have "replace_all_from R rp b (p @ tok @ q) = u @ tok @ (v @ z)"
        by simp
      then show ?thesis by blast
    qed
  qed
qed

section \<open>Properties of signature stripping\<close>

lemma trimmed_ends:
  assumes "trim S = S" and "S \<noteq> []"
  shows "\<not> is_ws (hd S)" and "\<not> is_ws (last S)"
proof -
  have l1: "length (trim S) \<le> length (dropWhile is_ws S)"
    using length_dropWhile_le [of is_ws "rev (dropWhile is_ws S)"] by (simp add: trim_def)
  show hd: "\<not> is_ws (hd S)"
  proof
    assume "is_ws (hd S)"
    with assms(2) have "length (dropWhile is_ws S) < length S"
      by (cases S) (simp_all add: le_imp_less_Suc length_dropWhile_le)
    with l1 assms(1) show False by simp
  qed
  show "\<not> is_ws (last S)"
  proof
    assume ws: "is_ws (last S)"
    from hd assms(2) have "dropWhile is_ws S = S"
      by (cases S) simp_all
    then have t: "trim S = rev (dropWhile is_ws (rev S))"
      by (simp add: trim_def)
    from assms(2) ws have "is_ws (hd (rev S))" and "rev S \<noteq> []"
      by (simp_all add: hd_rev)
    then have "length (dropWhile is_ws (rev S)) < length (rev S)"
      by (cases "rev S") (simp_all add: le_imp_less_Suc length_dropWhile_le)
    with t assms(1) show False
      by (metis length_rev less_irrefl)
  qed
qed

lemma dropWhile_keeps:
  "xs \<noteq> [] \<Longrightarrow> \<not> P (hd xs) \<Longrightarrow> dropWhile P (xs @ ys) = xs @ ys"
  by (cases xs) simp_all

lemma trim_append_trimmed:
  assumes "S \<noteq> []" and "\<not> is_ws (hd S)" and "\<not> is_ws (last S)"
  shows "trim (P @ S) = dropWhile is_ws P @ S"
proof -
  have a: "dropWhile is_ws (P @ S) = dropWhile is_ws P @ S"
  proof (cases "\<forall>x \<in> set P. is_ws x")
    case True
    then have "dropWhile is_ws P = []" by simp
    moreover from True have "dropWhile is_ws (P @ S) = dropWhile is_ws S"
      by (simp add: dropWhile_append2)
    moreover from assms have "dropWhile is_ws S = S" by (cases S) simp_all
    ultimately show ?thesis by simp
  next
    case False
    then show ?thesis by (auto simp: dropWhile_append1)
  qed
  from assms have "rev S \<noteq> []" and "\<not> is_ws (hd (rev S))"
    by (simp_all add: hd_rev)
  then have "dropWhile is_ws (rev S @ rev (dropWhile is_ws P)) = rev S @ rev (dropWhile is_ws P)"
    by (rule dropWhile_keeps)
  then show ?thesis
    by (simp add: trim_def a)
qed

text \<open>
  C2, as the code has it. For every text \<open>T\<close> and every template \<open>S\<close> of more than five code
  units that is in trimmed form (as captureEmailBody stores it) such that \<open>T\<close> ends with \<open>S\<close>,
  \<open>stripSignature T S\<close> is \<open>T\<close> without the trailing \<open>S\<close>, trimmed.
\<close>

theorem stripSignature_template:
  assumes len: "length S > 5"
    and trimmed: "trim S = S"
    and ends: "endsWith T S"
  shows "stripSignature T (Some S) = trim (take (length T - length S) T)"
proof -
  let ?P = "take (length T - length S) T"
  from len have ne: "S \<noteq> []" by auto
  from ends have T: "T = ?P @ S"
    by (metis append_take_drop_id endsWith_def)
  from trimmed_ends [OF trimmed ne] have e: "\<not> is_ws (hd S)" "\<not> is_ws (last S)" .
  from trim_append_trimmed [OF ne e, of ?P] T
  have r: "trim T = dropWhile is_ws ?P @ S" by simp
  have en: "endsWith (trim T) S"
    by (simp add: r endsWith_def)
  have tk: "take (length (trim T) - length S) (trim T) = dropWhile is_ws ?P"
    by (simp add: r)
  have "trim (dropWhile is_ws ?P) = trim ?P"
    by (simp add: trim_def)
  with len ne en tk show ?thesis
    by (simp add: stripSignature_def)
qed

theorem stripSignature_template_witness:
  "5 < length (js ''John Doe\<newline>ACME'')
   \<and> trim (js ''John Doe\<newline>ACME'') = js ''John Doe\<newline>ACME''
   \<and> endsWith (js ''Hello Bob,  \<newline>John Doe\<newline>ACME'') (js ''John Doe\<newline>ACME'')
   \<and> stripSignature (js ''Hello Bob,  \<newline>John Doe\<newline>ACME'') (Some (js ''John Doe\<newline>ACME''))
       = js ''Hello Bob,''"
proof -
  have l: "5 < length (js ''John Doe\<newline>ACME'')"
    by code_simp
  have t: "trim (js ''John Doe\<newline>ACME'') = js ''John Doe\<newline>ACME''"
    by code_simp
  have e: "endsWith (js ''Hello Bob,  \<newline>John Doe\<newline>ACME'') (js ''John Doe\<newline>ACME'')"
    by code_simp
  have r: "trim (take (length (js ''Hello Bob,  \<newline>John Doe\<newline>ACME'')
                       - length (js ''John Doe\<newline>ACME''))
                  (js ''Hello Bob,  \<newline>John Doe\<newline>ACME'')) = js ''Hello Bob,''"
    by code_simp
  from stripSignature_template [OF l t e] r l t e show ?thesis
    by simp
qed

text \<open>
  A template that ends with a space: the text ends with it, the trimmed text does not, and
  nothing is stripped.
\<close>

theorem stripSignature_template_counterexample:
  "5 < length (js ''Regards '')
   \<and> endsWith (js ''Hi Regards '') (js ''Regards '')
   \<and> stripSignature (js ''Hi Regards '') (Some (js ''Regards '')) = js ''Hi Regards''
   \<and> trim (take (length (js ''Hi Regards '') - length (js ''Regards '')) (js ''Hi Regards ''))
       = js ''Hi''"
  by code_simp

lemma canonicalize_newline: "canonicalize c = 10 \<longleftrightarrow> c = 10"
  by (auto simp: canonicalize_def)

lemma strip_by_best_regards:
  assumes no_delim: "\<not> test sig_delimiter s"
    and ex: "exec_from (sig_phrase (js ''Best regards,'')) [] s = Some (rev pre, MState b [] None)"
  shows "strip_by_patterns signaturePatterns s = Some (trim pre)"
proof -
  from ex have t: "test (sig_phrase (js ''Best regards,'')) s"
    by (simp add: test_def)
  from ex have r: "replace_first (sig_phrase (js ''Best regards,'')) [] s = pre"
    by (simp add: replace_first_def)
  have "strip_by_patterns signaturePatterns s =
        strip_by_patterns (sig_delimiter # sig_phrase (js ''Best regards,'') # drop 2 signaturePatterns) s"
    by (simp add: signaturePatterns_def)
  also have "\<dots> = Some (trim pre)"
    using no_delim t r by simp
  finally show ?thesis .
qed

text \<open>
  C5, as the code has it. For every text \<open>T\<close>, with no template, whose trimmed form holds no
  delimiter \<open>\n--\s*\n\<close> and in which position \<open>k\<close> is the first newline followed by
  "Best regards," (in any letter case): \<open>stripSignature\<close> returns the trimmed text before that
  newline, trimmed; the line and everything after it are gone.
\<close>

theorem stripSignature_best_regards:
  assumes here: "starts_i (10 # js ''Best regards,'') (drop k (trim T))"
    and first: "\<forall>i < k. \<not> starts_i (10 # js ''Best regards,'') (drop i (trim T))"
    and no_delim: "\<not> test sig_delimiter (trim T)"
  shows "stripSignature T None = trim (take k (trim T))"
proof -
  from here have "length (10 # js ''Best regards,'') \<le> length (drop k (trim T))"
    by (simp add: starts_i_def)
  then have "k \<le> length (trim T)"
    by simp
  from exec_from_sig_phrase_first [OF here this first, of "[]"]
  have "exec_from (sig_phrase (js ''Best regards,'')) [] (trim T)
          = Some (rev (take k (trim T)), MState (rev (trim T)) [] None)"
    by simp
  from strip_by_best_regards [OF no_delim this] show ?thesis
    by (simp add: stripSignature_def)
qed

theorem stripSignature_best_regards_witness:
  "starts_i (10 # js ''Best regards,'') (drop 8 (trim (js ''  Hi there\<newline>best Regards,\<newline>Bob  '')))
   \<and> \<not> test sig_delimiter (trim (js ''  Hi there\<newline>best Regards,\<newline>Bob  ''))
   \<and> stripSignature (js ''  Hi there\<newline>best Regards,\<newline>Bob  '') None = js ''Hi there''"
proof -
  let ?T = "js ''  Hi there\<newline>best Regards,\<newline>Bob  ''"
  have h: "starts_i (10 # js ''Best regards,'') (drop 8 (trim ?T))"
    by code_simp
  have "\<forall>i \<in> set [0..<8]. \<not> starts_i (10 # js ''Best regards,'') (drop i (trim ?T))"
    by code_simp
  then have f: "\<forall>i < 8. \<not> starts_i (10 # js ''Best regards,'') (drop i (trim ?T))"
    by simp
  have d: "\<not> test sig_delimiter (trim ?T)"
    by code_simp
  have r: "trim (take 8 (trim ?T)) = js ''Hi there''"
    by code_simp
  from stripSignature_best_regards [OF h f d] r h d show ?thesis
    by simp
qed

text \<open>
  A delimiter line below the closing phrase is found first, and the phrase line stays; a
  phrase on the first line of the text has no newline before it, and nothing is stripped.
\<close>

theorem stripSignature_best_regards_counterexample:
  "stripSignature (js ''Hi\<newline>Best regards,\<newline>Bob\<newline>-- \<newline>foo'') None
     = js ''Hi\<newline>Best regards,\<newline>Bob''
   \<and> stripSignature (js ''Best regards,\<newline>Bob'') None = js ''Best regards,\<newline>Bob''"
  by code_simp

section \<open>Properties of the thread boundary and the thread text\<close>

text \<open>
  C3, as the code has it. For the compose HTML
  \<open><div>Hello world</div><hr tabindex="-1"><div>From: A Sent: B To: C Subject: D</div>\<close>
  the thread element is the \<open>hr\<close>, the current message is "Hello world", the thread text is
  the text of the last \<open>div\<close>, and the cleaned thread text is the labels \<open>From:\<close>, \<open>Sent:\<close> and
  \<open>To:\<close>, each followed by a newline with its value gone, then \<open>Subject: D\<close>: no range
  pattern starts at \<open>Subject:\<close>, whose value stays.
\<close>

theorem hello_thread_segmented:
  "threadElement hello_thread = Some (Element 3 ''hr'' [(''tabindex'', js ''-1'')] [])
   \<and> currentMessage (parseEmailHtml hello_thread) = js ''Hello world''
   \<and> threadContent (parseEmailHtml hello_thread) = js ''From: A Sent: B To: C Subject: D''
   \<and> cleanThreadContent (threadContent (parseEmailHtml hello_thread))
       = js ''From:\<newline>Sent:\<newline>To:\<newline>Subject: D''"
  by code_simp

theorem hello_thread_counterexample:
  "\<not> js_includes (cleanThreadContent (threadContent (parseEmailHtml hello_thread)))
       (js ''From:\<newline>Sent:\<newline>To:\<newline>Subject:\<newline>'')"
  by code_simp

section \<open>Properties of the formatter\<close>

lemma ci_lt: "ci 60 c \<longleftrightarrow> c = 60"
  by (auto simp: ci_def canonicalize_def)

lemma ci_bracket: "ci l 91 \<longleftrightarrow> l = 91"
  by (auto simp: ci_def canonicalize_def)

lemma replace_all_lit_empty: "L \<noteq> [] \<Longrightarrow> replace_all (lit_i L) [RLit x] [] = []"
  by (simp add: replace_all_def replace_lit_Nil)

lemma style_around:
  assumes tok: "tok \<noteq> []" and hd: "hd tok = 91" and lt: "\<forall>c \<in> set tok. c \<noteq> 60"
    and L: "L = js ''<p>'' \<or> L = js ''<ul>'' \<or> L = js ''<ol>''"
  shows "replace_all (lit_i L) [RLit x] (p @ tok @ q) =
         replace_all (lit_i L) [RLit x] p @ tok @ replace_all (lit_i L) [RLit x] q"
proof (rule replace_all_lit_around)
  from L show "L \<noteq> []" by (auto simp: js_def)
  from L have "hd L = 60" by (auto simp: js_def)
  with lt show "\<forall>c \<in> set tok. \<not> ci (hd L) c" by (simp add: ci_lt)
  from L hd show "\<forall>l \<in> set L. \<not> ci l (hd tok)" by (auto simp: ci_bracket js_def)
  show "tok \<noteq> []" by (rule tok)
qed

lemma addOutlookStyles_eq:
  "addOutlookStyles html =
     replace_all (lit_i (js ''<ol>'')) [RLit ol_style]
       (replace_all (lit_i (js ''<ul>'')) [RLit ul_style]
          (replace_all (lit_i (js ''<p>'')) [RLit p_style] html))"
proof (cases "html = []")
  case True
  have "js ''<p>'' \<noteq> []" "js ''<ul>'' \<noteq> []" "js ''<ol>'' \<noteq> []"
    by (simp_all add: js_def)
  with True show ?thesis
    by (simp add: addOutlookStyles_def replace_all_lit_empty)
next
  case False
  then show ?thesis
    by (simp add: addOutlookStyles_def)
qed

lemma addOutlookStyles_around:
  assumes "tok \<noteq> []" and "hd tok = 91" and "\<forall>c \<in> set tok. c \<noteq> 60"
  shows "addOutlookStyles (p @ tok @ q) = addOutlookStyles p @ tok @ addOutlookStyles q"
  by (simp add: addOutlookStyles_eq style_around [OF assms])

lemma placeholder_shape:
  assumes "is_placeholder tok"
  shows "tok \<noteq> []" and "hd tok = 91" and "\<forall>c \<in> set tok. c \<noteq> 60"
proof -
  define kind where "kind = takeWhile upper (drop 2 tok)"
  define num where "num = takeWhile digit (drop (3 + length kind) tok)"
  from assms have eq: "tok = js ''[['' @ kind @ js ''_'' @ num @ js '']]''"
    by (simp add: is_placeholder_def Let_def kind_def num_def)
  have k: "\<forall>c \<in> set kind. upper c"
    unfolding kind_def by (meson set_takeWhileD)
  have n: "\<forall>c \<in> set num. digit c"
    unfolding num_def by (meson set_takeWhileD)
  from eq show "tok \<noteq> []" by (simp add: js_def)
  from eq have "tok = 91 # 91 # kind @ js ''_'' @ num @ js '']]''"
    by (simp add: js_def)
  then show "hd tok = 91" by (metis list.sel(1))
  have "set tok = {91, 95, 93} \<union> set kind \<union> set num"
    by (subst eq) (auto simp: js_def)
  with k n show "\<forall>c \<in> set tok. c \<noteq> 60"
    by (auto simp: upper_def digit_def)
qed

subsection \<open>Placeholder tokens on the markdown path\<close>

lemma has_lone_intro:
  "(x = [] \<longrightarrow> \<not> prev) \<Longrightarrow> (x \<noteq> [] \<longrightarrow> last x \<noteq> 95) \<Longrightarrow> (y = [] \<or> hd y \<noteq> 95) \<Longrightarrow>
   has_lone prev (x @ 95 # y)"
proof (induction x arbitrary: prev)
  case Nil
  then show ?case by simp
next
  case (Cons c cs)
  have "has_lone (c = 95) (cs @ 95 # y)"
  proof (rule Cons.IH)
    from Cons.prems(2) show "cs = [] \<longrightarrow> \<not> c = 95" by auto
    from Cons.prems(2) show "cs \<noteq> [] \<longrightarrow> last cs \<noteq> 95" by auto
    from Cons.prems(3) show "y = [] \<or> hd y \<noteq> 95" .
  qed
  then show ?case by simp
qed

lemma not_lt_underscore: "\<not> is_lt 95"
  by (simp add: is_lt_def)

lemma lone_before:
  assumes "\<forall>c \<in> set y. \<not> is_lt c" and "x = [] \<or> last x \<noteq> 95" and "y = [] \<or> hd y \<noteq> 95"
  shows "has_lone False (line_before (x @ 95 # y))"
proof -
  from assms(1) have "takeWhile (\<lambda>c. \<not> is_lt c) (rev y @ 95 # rev x)
                      = rev y @ takeWhile (\<lambda>c. \<not> is_lt c) (95 # rev x)"
    by (intro takeWhile_append2) simp
  then have "takeWhile (\<lambda>c. \<not> is_lt c) (rev y @ 95 # rev x)
                      = rev y @ 95 # takeWhile (\<lambda>c. \<not> is_lt c) (rev x)"
    by (simp add: not_lt_underscore)
  then have lb: "line_before (x @ 95 # y) = line_before x @ 95 # y"
    by (simp add: line_before_def)
  have "line_before x \<noteq> [] \<longrightarrow> last (line_before x) \<noteq> 95"
  proof
    assume ne: "line_before x \<noteq> []"
    then have "x \<noteq> []" by (auto simp: line_before_def)
    moreover from ne have "last (line_before x) = last x"
      by (cases "rev x") (auto simp: line_before_def last_rev split: if_splits)
    ultimately show "last (line_before x) \<noteq> 95"
      using assms(2) by simp
  qed
  with assms(3) show ?thesis
    unfolding lb by (intro has_lone_intro) simp_all
qed

lemma lone_after:
  assumes "\<forall>c \<in> set x. \<not> is_lt c" and "x = [] \<or> last x \<noteq> 95" and "y = [] \<or> hd y \<noteq> 95"
  shows "has_lone False (line_after (x @ 95 # y))"
proof -
  from assms(1) have "takeWhile (\<lambda>c. \<not> is_lt c) (x @ 95 # y)
                      = x @ takeWhile (\<lambda>c. \<not> is_lt c) (95 # y)"
    by (intro takeWhile_append2) simp
  then have la: "line_after (x @ 95 # y) = x @ 95 # line_after y"
    by (simp add: line_after_def not_lt_underscore)
  have "line_after y = [] \<or> hd (line_after y) \<noteq> 95"
  proof (cases y)
    case Nil
    then show ?thesis by (simp add: line_after_def)
  next
    case (Cons c cs)
    with assms(3) show ?thesis by (simp add: line_after_def)
  qed
  with assms(2) show ?thesis
    unfolding la by (intro has_lone_intro) auto
qed

text \<open>The parts of a placeholder token.\<close>

lemma placeholder_parts:
  assumes "is_placeholder tok"
  shows "\<exists>A B. tok = A @ 95 # B \<and> A \<noteq> [] \<and> B \<noteq> [] \<and> 95 \<notin> set A \<and> 95 \<notin> set B"
    and "hd tok = 91" and "last tok = 93" and "42 \<notin> set tok"
    and "\<forall>c \<in> set tok. \<not> is_lt c \<and> \<not> is_ws c \<and> c \<noteq> 10"
proof -
  define kind where "kind = takeWhile upper (drop 2 tok)"
  define num where "num = takeWhile digit (drop (3 + length kind) tok)"
  from assms have eq: "tok = js ''[['' @ kind @ js ''_'' @ num @ js '']]''"
    and ne: "kind \<noteq> []" "num \<noteq> []"
    by (simp_all add: is_placeholder_def Let_def kind_def num_def)
  have k: "\<forall>c \<in> set kind. upper c"
    unfolding kind_def by (meson set_takeWhileD)
  have n: "\<forall>c \<in> set num. digit c"
    unfolding num_def by (meson set_takeWhileD)
  have t: "tok = ([91, 91] @ kind) @ 95 # (num @ [93, 93])"
    by (subst eq) (simp add: js_def)
  from k n have "95 \<notin> set ([91, 91] @ kind)" "95 \<notin> set (num @ [93, 93])"
    by (auto simp: upper_def digit_def)
  with t show "\<exists>A B. tok = A @ 95 # B \<and> A \<noteq> [] \<and> B \<noteq> [] \<and> 95 \<notin> set A \<and> 95 \<notin> set B"
    by (intro exI [of _ "[91, 91] @ kind"] exI [of _ "num @ [93, 93]"]) simp
  from t show "hd tok = 91" by simp
  from t show "last tok = 93" by simp
  have st: "set tok = {91, 95, 93} \<union> set kind \<union> set num"
    by (subst t) auto
  with k n show "42 \<notin> set tok"
    by (auto simp: upper_def digit_def)
  from st k n show "\<forall>c \<in> set tok. \<not> is_lt c \<and> \<not> is_ws c \<and> c \<noteq> 10"
    by (auto simp: upper_def digit_def is_lt_def is_ws_def)
qed

lemma split_at_underscore:
  assumes "tok = A @ 95 # B" and "95 \<notin> set A" and "95 \<notin> set B"
    and "tok = t1 @ t2" and "t2 \<noteq> []" and "hd t2 = 95"
  shows "t1 = A \<and> t2 = 95 # B"
proof -
  from assms(5,6) obtain t where t2: "t2 = 95 # t" by (cases t2) auto
  with assms(1,4) have eq: "A @ 95 # B = t1 @ 95 # t" by simp
  show ?thesis
  proof (cases "length A \<le> length t1")
    case True
    from append_split_le [OF eq True] obtain m where m: "t1 = A @ m" "95 # B = m @ 95 # t"
      by blast
    show ?thesis
    proof (cases m)
      case Nil
      with m t2 show ?thesis by simp
    next
      case (Cons c cs)
      with m(2) have "B = cs @ 95 # t" by simp
      with assms(3) show ?thesis by simp
    qed
  next
    case False
    then have "length t1 \<le> length A" by simp
    from append_split_le [OF eq [symmetric] this] obtain m where m: "A = t1 @ m" "95 # t = m @ 95 # B"
      by blast
    with False have "m \<noteq> []" by auto
    with m(2) have "hd m = 95" by (cases m) auto
    with \<open>m \<noteq> []\<close> m(1) assms(2) show ?thesis
      by (cases m) auto
  qed
qed

lemma no_split_mark:
  assumes ph: "is_placeholder tok" and d: "d = 42 \<or> d = 95"
    and split: "tok = t1 @ t2" "t2 \<noteq> []" and eq: "t2 @ q = [d, d] @ r"
  shows False
proof -
  from split(2) eq have hd: "hd t2 = d" by (cases t2) auto
  from d show False
  proof
    assume "d = 42"
    with hd split have "42 \<in> set tok" by (cases t2) auto
    with placeholder_parts(4) [OF ph] show False by simp
  next
    assume d95: "d = 95"
    from placeholder_parts(1) [OF ph] obtain A B where
      ab: "tok = A @ 95 # B" "A \<noteq> []" "B \<noteq> []" "95 \<notin> set A" "95 \<notin> set B"
      by blast
    from split_at_underscore [OF ab(1,4,5) split] hd d95 have "t2 = 95 # B"
      by simp
    with eq d95 have "B @ q = 95 # r" by simp
    with ab(3) have "hd B = 95" by (cases B) auto
    with ab(3,5) show False by (cases B) auto
  qed
qed

lemma no_split_star:
  assumes ph: "is_placeholder tok"
    and split: "tok = t1 @ t2" "t2 \<noteq> []" and eq: "t2 @ q = 42 # r"
  shows False
proof -
  from split(2) eq have "hd t2 = 42" by (cases t2) auto
  with split have "42 \<in> set tok" by (cases t2) auto
  with placeholder_parts(4) [OF ph] show False by simp
qed

lemma keeps_bold:
  assumes ph: "is_placeholder tok" and d: "d = 42 \<or> d = 95"
  shows "\<exists>u v. replace_all (seqs [lit [d, d], Group (LazyPlus (Chr dot)), lit [d, d]])
                  [RLit a, RCap1, RLit z] (p @ tok @ q) = u @ tok @ v"
proof -
  let ?R = "seqs [lit [d, d], Group (LazyPlus (Chr dot)), lit [d, d]]"
  let ?rp = "[RLit a, RCap1, RLit z]"
  from placeholder_shape(1) [OF ph] have tok: "tok \<noteq> []" .
  from placeholder_parts(2) [OF ph] d have h: "hd tok \<notin> set [d, d]" by auto
  have "\<exists>u v. replace_all_from ?R ?rp [] (p @ tok @ q) = u @ tok @ v"
  proof (rule scan_keeps [where G = "\<lambda>_. True"])
    show "tok \<noteq> []" by (rule tok)
    show True ..
  next
    fix b p st x
    assume "rmatch ?R (MState b (p @ tok @ q) None) = st # x"
    then have "st \<in> set (rmatch ?R (MState b (p @ tok @ q) None))" by simp
    from bold_shape [OF this] obtain cap r where
      s: "p @ tok @ q = [d, d] @ cap @ [d, d] @ r"
      and st: "st = MState (rev ([d, d] @ cap @ [d, d]) @ b) r (Some cap)"
      by blast
    from span_cases [OF s tok h h]
    show "(\<exists>m p'. m \<noteq> [] \<and> p = m @ p' \<and> rest st = p' @ tok @ q \<and> before st = rev m @ b)
          \<or> (\<exists>u v. expand ?rp (cap1 st) = u @ tok @ v)"
    proof (elim disjE exE conjE)
      fix p'
      assume "p = [d, d] @ cap @ [d, d] @ p'" "r = p' @ tok @ q"
      with st have "[d, d] @ cap @ [d, d] \<noteq> [] \<and> p = ([d, d] @ cap @ [d, d]) @ p'
                    \<and> rest st = p' @ tok @ q \<and> before st = rev ([d, d] @ cap @ [d, d]) @ b"
        by simp
      then show ?thesis by blast
    next
      fix u v
      assume "cap = u @ tok @ v"
      with st have "expand ?rp (cap1 st) = (a @ u) @ tok @ (v @ z)" by simp
      then show ?thesis by blast
    next
      fix u t1 t2
      assume "tok = t1 @ t2" "t2 \<noteq> []" "t2 @ q = [d, d] @ r"
      from no_split_mark [OF ph d this] show ?thesis ..
    qed
  next
    fix b0 t1 t2
    assume split: "tok = t1 @ t2" "t2 \<noteq> []"
    show "rmatch ?R (MState (rev t1 @ b0) (t2 @ q) None) = []"
    proof (cases "rmatch ?R (MState (rev t1 @ b0) (t2 @ q) None)")
      case Nil
      then show ?thesis .
    next
      case (Cons st x)
      then have "st \<in> set (rmatch ?R (MState (rev t1 @ b0) (t2 @ q) None))" by simp
      from bold_shape [OF this] obtain cap r where "t2 @ q = [d, d] @ cap @ [d, d] @ r"
        by blast
      from no_split_mark [OF ph d split this] show ?thesis ..
    qed
  qed
  then show ?thesis by (simp add: replace_all_def)
qed

lemma keeps_italic_star:
  assumes ph: "is_placeholder tok"
  shows "\<exists>u v. replace_all italic_star [RLit a, RCap1, RLit z] (p @ tok @ q) = u @ tok @ v"
proof -
  let ?R = "seqs [NotBehind (chr 42), Chr (chr 42), NotAhead (Chr (chr 42)),
                  Group (LazyPlus (Chr dot)),
                  NotBehind (chr 42), Chr (chr 42), NotAhead (Chr (chr 42))]"
  let ?rp = "[RLit a, RCap1, RLit z]"
  from placeholder_shape(1) [OF ph] have tok: "tok \<noteq> []" .
  from placeholder_parts(2) [OF ph] have h: "hd tok \<notin> set [42]" by auto
  have "\<exists>u v. replace_all_from ?R ?rp [] (p @ tok @ q) = u @ tok @ v"
  proof (rule scan_keeps [where G = "\<lambda>_. True"])
    show "tok \<noteq> []" by (rule tok)
    show True ..
  next
    fix b p st x
    assume "rmatch ?R (MState b (p @ tok @ q) None) = st # x"
    then have "st \<in> set (rmatch ?R (MState b (p @ tok @ q) None))" by simp
    from italic_shape [OF this] obtain cap r where
      s: "p @ tok @ q = [42] @ cap @ [42] @ r"
      and st: "st = MState (rev (42 # cap @ [42]) @ b) r (Some cap)"
      by auto
    from span_cases [OF s tok h h]
    show "(\<exists>m p'. m \<noteq> [] \<and> p = m @ p' \<and> rest st = p' @ tok @ q \<and> before st = rev m @ b)
          \<or> (\<exists>u v. expand ?rp (cap1 st) = u @ tok @ v)"
    proof (elim disjE exE conjE)
      fix p'
      assume "p = [42] @ cap @ [42] @ p'" "r = p' @ tok @ q"
      with st have "42 # cap @ [42] \<noteq> [] \<and> p = (42 # cap @ [42]) @ p'
                    \<and> rest st = p' @ tok @ q \<and> before st = rev (42 # cap @ [42]) @ b"
        by simp
      then show ?thesis by blast
    next
      fix u v
      assume "cap = u @ tok @ v"
      with st have "expand ?rp (cap1 st) = (a @ u) @ tok @ (v @ z)" by simp
      then show ?thesis by blast
    next
      fix u t1 t2
      assume "tok = t1 @ t2" "t2 \<noteq> []" "t2 @ q = [42] @ r"
      then have "t2 @ q = 42 # r" by simp
      from no_split_star [OF ph \<open>tok = t1 @ t2\<close> \<open>t2 \<noteq> []\<close> this] show ?thesis ..
    qed
  next
    fix b0 t1 t2
    assume split: "tok = t1 @ t2" "t2 \<noteq> []"
    show "rmatch ?R (MState (rev t1 @ b0) (t2 @ q) None) = []"
    proof (cases "rmatch ?R (MState (rev t1 @ b0) (t2 @ q) None)")
      case Nil
      then show ?thesis .
    next
      case (Cons st x)
      then have "st \<in> set (rmatch ?R (MState (rev t1 @ b0) (t2 @ q) None))" by simp
      from italic_shape [OF this] obtain cap r where "t2 @ q = 42 # cap @ 42 # r"
        by blast
      from no_split_star [OF ph split this] show ?thesis ..
    qed
  qed
  then show ?thesis by (simp add: replace_all_def italic_star_def)
qed

lemma keeps_bold_stars:
  "is_placeholder tok \<Longrightarrow>
   \<exists>u v. replace_all bold_stars [RLit a, RCap1, RLit z] (p @ tok @ q) = u @ tok @ v"
  using keeps_bold [of tok 42 a z p q] by (simp add: bold_stars_def js_def)

lemma keeps_bold_underscores:
  "is_placeholder tok \<Longrightarrow>
   \<exists>u v. replace_all bold_underscores [RLit a, RCap1, RLit z] (p @ tok @ q) = u @ tok @ v"
  using keeps_bold [of tok 95 a z p q] by (simp add: bold_underscores_def js_def)

lemma keeps_italic_underscore:
  assumes ph: "is_placeholder tok"
    and lb: "\<not> has_lone False (line_before p0)"
    and la: "\<not> has_lone False (line_after q)"
  shows "\<exists>u v. replace_all italic_underscore [RLit a, RCap1, RLit z] (p0 @ tok @ q) = u @ tok @ v"
proof -
  let ?R = "seqs [NotBehind (chr 95), Chr (chr 95), NotAhead (Chr (chr 95)),
                  Group (LazyPlus (Chr dot)),
                  NotBehind (chr 95), Chr (chr 95), NotAhead (Chr (chr 95))]"
  let ?rp = "[RLit a, RCap1, RLit z]"
  let ?G = "\<lambda>P. \<not> has_lone False (line_before P)"
  from placeholder_shape(1) [OF ph] have tok: "tok \<noteq> []" .
  from placeholder_parts(2) [OF ph] have h: "hd tok \<notin> set [95]" by auto
  from placeholder_parts(1) [OF ph] obtain A B where
    ab: "tok = A @ 95 # B" "A \<noteq> []" "B \<noteq> []" "95 \<notin> set A" "95 \<notin> set B"
    by blast
  have "\<exists>u v. replace_all_from ?R ?rp [] (p0 @ tok @ q) = u @ tok @ v"
  proof (rule scan_keeps [where G = ?G])
    show "tok \<noteq> []" by (rule tok)
    from lb show "\<not> has_lone False (line_before (rev [] @ p0))" by simp
  next
    fix b p st x
    assume g: "\<not> has_lone False (line_before (rev b @ p))"
    assume "rmatch ?R (MState b (p @ tok @ q) None) = st # x"
    then have "st \<in> set (rmatch ?R (MState b (p @ tok @ q) None))" by simp
    from italic_shape [OF this] obtain cap r where
      s: "p @ tok @ q = [95] @ cap @ [95] @ r"
      and cap: "\<forall>x \<in> set cap. \<not> is_lt x" "hd cap \<noteq> 95"
      and b: "b = [] \<or> hd b \<noteq> 95"
      and st: "st = MState (rev (95 # cap @ [95]) @ b) r (Some cap)"
      by auto
    from span_cases [OF s tok h h]
    show "(\<exists>m p'. m \<noteq> [] \<and> p = m @ p' \<and> rest st = p' @ tok @ q \<and> before st = rev m @ b)
          \<or> (\<exists>u v. expand ?rp (cap1 st) = u @ tok @ v)"
    proof (elim disjE exE conjE)
      fix p'
      assume "p = [95] @ cap @ [95] @ p'" "r = p' @ tok @ q"
      with st have "95 # cap @ [95] \<noteq> [] \<and> p = (95 # cap @ [95]) @ p'
                    \<and> rest st = p' @ tok @ q \<and> before st = rev (95 # cap @ [95]) @ b"
        by simp
      then show ?thesis by blast
    next
      fix u v
      assume "cap = u @ tok @ v"
      with st have "expand ?rp (cap1 st) = (a @ u) @ tok @ (v @ z)" by simp
      then show ?thesis by blast
    next
      fix u t1 t2
      assume t: "tok = t1 @ t2" "t1 \<noteq> []" and p: "p = [95] @ u" and c: "cap = u @ t1"
      from c cap(1) have 1: "\<forall>c \<in> set u. \<not> is_lt c" by simp
      from b have 2: "rev b = [] \<or> last (rev b) \<noteq> 95" by (cases b) auto
      from c cap(2) have 3: "u = [] \<or> hd u \<noteq> 95" by (cases u) auto
      from lone_before [OF 1 2 3] g p show ?thesis by simp
    qed
  next
    fix b0 t1 t2
    assume split: "tok = t1 @ t2" "t2 \<noteq> []"
    show "rmatch ?R (MState (rev t1 @ b0) (t2 @ q) None) = []"
    proof (cases "rmatch ?R (MState (rev t1 @ b0) (t2 @ q) None)")
      case Nil
      then show ?thesis .
    next
      case (Cons st x)
      then have "st \<in> set (rmatch ?R (MState (rev t1 @ b0) (t2 @ q) None))" by simp
      from italic_shape [OF this] obtain cap r where
        s: "t2 @ q = 95 # cap @ 95 # r"
        and cap: "cap \<noteq> []" "\<forall>x \<in> set cap. \<not> is_lt x" "last cap \<noteq> 95"
        and r: "r = [] \<or> hd r \<noteq> 95"
        by blast
      from s split(2) have "hd t2 = 95" by (cases t2) auto
      from split_at_underscore [OF ab(1,4,5) split this] have t2: "t2 = 95 # B" by simp
      with s have eq: "B @ q = cap @ 95 # r" by simp
      have "length B \<le> length cap"
      proof (rule ccontr)
        assume "\<not> length B \<le> length cap"
        then have "length cap \<le> length B" by simp
        from append_split_le [OF eq [symmetric] this] obtain m where
          m: "B = cap @ m" "95 # r = m @ q" by blast
        with \<open>\<not> length B \<le> length cap\<close> have "m \<noteq> []" by auto
        with m(2) have "hd m = 95" by (cases m) auto
        with \<open>m \<noteq> []\<close> m(1) ab(5) show False by (cases m) auto
      qed
      from append_split_le [OF eq this] obtain y where y: "cap = B @ y" "q = y @ 95 # r"
        by blast
      from y(1) cap(2) have 1: "\<forall>c \<in> set y. \<not> is_lt c" by simp
      from y(1) cap(3) have 2: "y = [] \<or> last y \<noteq> 95" by (cases y) auto
      from lone_after [OF 1 2 r] la y(2) show ?thesis by simp
    qed
  qed
  then show ?thesis by (simp add: replace_all_def italic_underscore_def)
qed

lemma js_includes_iff: "js_includes s sub \<longleftrightarrow> (\<exists>u v. s = u @ sub @ v)"
proof (induction s)
  case Nil
  show ?case by simp
next
  case (Cons c cs)
  show ?case
  proof
    assume "js_includes (c # cs) sub"
    then have "take (length sub) (c # cs) = sub \<or> js_includes cs sub" by simp
    then show "\<exists>u v. c # cs = u @ sub @ v"
    proof
      assume "take (length sub) (c # cs) = sub"
      then have "c # cs = [] @ sub @ drop (length sub) (c # cs)"
        by (metis append_Nil append_take_drop_id)
      then show ?thesis by blast
    next
      assume "js_includes cs sub"
      with Cons.IH obtain u v where "cs = u @ sub @ v" by blast
      then have "c # cs = (c # u) @ sub @ v" by simp
      then show ?thesis by blast
    qed
  next
    assume "\<exists>u v. c # cs = u @ sub @ v"
    then obtain u v where eq: "c # cs = u @ sub @ v" by blast
    show "js_includes (c # cs) sub"
    proof (cases u)
      case Nil
      with eq have "take (length sub) (c # cs) = sub" by simp
      then show ?thesis by simp
    next
      case (Cons x xs)
      with eq have "cs = xs @ sub @ v" by simp
      with Cons.IH have "js_includes cs sub" by blast
      then show ?thesis by simp
    qed
  qed
qed

lemma js_includes_around: "js_includes s sub \<Longrightarrow> js_includes (x @ s @ y) sub"
proof -
  assume "js_includes s sub"
  then obtain u v where "s = u @ sub @ v" by (auto simp: js_includes_iff)
  then have "x @ s @ y = (x @ u) @ sub @ (v @ y)" by simp
  then show ?thesis unfolding js_includes_iff by blast
qed

lemma split_nl_not_Nil: "split_nl s \<noteq> []"
  by (induction s) (auto split: list.splits)

lemma split_nl_head:
  "10 \<notin> set t \<Longrightarrow> \<exists>c ls. split_nl (t @ v) = (t @ c) # ls"
proof (induction t)
  case Nil
  then show ?case using split_nl_not_Nil [of v] by (cases "split_nl v") auto
next
  case (Cons x t)
  then obtain c ls where "split_nl (t @ v) = (t @ c) # ls" by auto
  with Cons.prems show ?case by simp
qed

lemma split_nl_holds:
  assumes "10 \<notin> set tok"
  shows "\<exists>l \<in> set (split_nl (u @ tok @ v)). js_includes l tok"
proof (induction u)
  case Nil
  from split_nl_head [OF assms, of v] obtain c ls where s: "split_nl (tok @ v) = (tok @ c) # ls"
    by blast
  have "js_includes (tok @ c) tok"
    using js_includes_iff [of "tok @ c" tok] by (metis append_Nil)
  with s show ?case by simp
next
  case (Cons x u)
  then obtain l where l: "l \<in> set (split_nl (u @ tok @ v))" "js_includes l tok" by blast
  show ?case
  proof (cases "x = 10")
    case True
    with l show ?thesis by auto
  next
    case False
    obtain l0 ls where s: "split_nl (u @ tok @ v) = l0 # ls"
      using split_nl_not_Nil [of "u @ tok @ v"] by (cases "split_nl (u @ tok @ v)") auto
    with False have s': "split_nl ((x # u) @ tok @ v) = (x # l0) # ls" by simp
    from l(1) s have "l = l0 \<or> l \<in> set ls" by simp
    then show ?thesis
    proof
      assume "l = l0"
      with l(2) have "js_includes ([x] @ l0 @ []) tok" by (intro js_includes_around) simp
      with s' show ?thesis by simp
    next
      assume "l \<in> set ls"
      with l(2) s' show ?thesis by auto
    qed
  qed
qed

lemma dropWhile_append_keep:
  "ys \<noteq> [] \<Longrightarrow> \<not> P (hd ys) \<Longrightarrow> dropWhile P (xs @ ys) = dropWhile P xs @ ys"
  by (induction xs) (auto simp: dropWhile_keeps [of ys P "[]", simplified])

lemma trim_holds:
  assumes tok: "tok \<noteq> []" and ws: "\<forall>c \<in> set tok. \<not> is_ws c" and inc: "js_includes l tok"
  shows "js_includes (trim l) tok"
proof -
  from inc obtain a c where l: "l = a @ tok @ c" by (auto simp: js_includes_iff)
  from tok ws have h: "\<not> is_ws (hd tok)" and t: "\<not> is_ws (last tok)" by simp_all
  from tok h have "dropWhile is_ws (a @ tok @ c) = dropWhile is_ws a @ tok @ c"
    using dropWhile_append_keep [of "tok @ c" is_ws a] by simp
  then have "rev (dropWhile is_ws l) = rev c @ (rev tok @ rev (dropWhile is_ws a))"
    by (simp add: l)
  moreover from tok t have "dropWhile is_ws (rev c @ (rev tok @ rev (dropWhile is_ws a)))
                   = dropWhile is_ws (rev c) @ (rev tok @ rev (dropWhile is_ws a))"
    by (intro dropWhile_append_keep) (simp_all add: hd_rev)
  ultimately have "trim l = dropWhile is_ws a @ tok @ rev (dropWhile is_ws (rev c))"
    by (simp add: trim_def)
  then show ?thesis unfolding js_includes_iff by blast
qed

lemma exec_from_sound:
  "exec_from r b s = Some (b', st) \<Longrightarrow>
   \<exists>p s'. s = p @ s' \<and> b' = rev p @ b \<and> st \<in> set (rmatch r (MState b' s' None))"
proof (induction s arbitrary: b)
  case Nil
  then have "b' = b \<and> st \<in> set (rmatch r (MState b [] None))"
    by (auto split: list.splits)
  then show ?case by simp
next
  case (Cons c cs)
  show ?case
  proof (cases "rmatch r (MState b (c # cs) None)")
    case Nil
    with Cons.prems have "exec_from r (c # b) cs = Some (b', st)" by simp
    from Cons.IH [OF this] obtain p s' where
      "cs = p @ s'" "b' = rev p @ c # b" "st \<in> set (rmatch r (MState b' s' None))"
      by blast
    then have "c # cs = (c # p) @ s' \<and> b' = rev (c # p) @ b
               \<and> st \<in> set (rmatch r (MState b' s' None))"
      by simp
    then show ?thesis by blast
  next
    case (Cons st' x)
    with Cons.prems have "b' = b" "st = st'" by simp_all
    with Cons have "c # cs = [] @ (c # cs) \<and> b' = rev [] @ b
               \<and> st \<in> set (rmatch r (MState b' (c # cs) None))"
      by simp
    then show ?thesis by blast
  qed
qed

lemma bol_mem:
  "st \<in> set (rmatch (Bol False) (MState b s c)) \<longleftrightarrow> st = MState b s c \<and> b = []"
  by (cases b) auto

lemma eol_mem:
  "st \<in> set (rmatch (Eol False) (MState b s c)) \<longleftrightarrow> st = MState b s c \<and> s = []"
  by (cases s) auto

lemma unordered_shape:
  assumes "st \<in> set (rmatch unordered_item (MState b s None))"
  shows "\<exists>m ws w. s = (m # ws) @ w \<and> (m = 45 \<or> m = 42) \<and> (\<forall>x \<in> set ws. is_ws x)
           \<and> b = [] \<and> cap1 st = Some w"
proof -
  from assms obtain st1 st2 st3 st4 where
    1: "st1 \<in> set (rmatch (Bol False) (MState b s None))"
    and 2: "st2 \<in> set (rmatch (Chr (one_of (js ''-*''))) st1)"
    and 3: "st3 \<in> set (rmatch (Plus (Chr is_ws)) st2)"
    and 4: "st4 \<in> set (rmatch (Group (Plus (Chr dot))) st3)"
    and 5: "st \<in> set (rmatch (Eol False) st4)"
    by (auto simp only: unordered_item_def seqs.simps seq_mem rmatch.simps(1) list.set
        singleton_iff)
  from 1 have s1: "st1 = MState b s None" and b: "b = []"
    by (simp_all only: bol_mem)
  from chr_sound [OF 2 [unfolded s1]] obtain m r1 where
    m: "s = m # r1" "one_of (js ''-*'') m" "st2 = MState (m # b) r1 None"
    by blast
  from plus_sound [OF 3 [unfolded m(3)]] obtain ws r2 where
    ws: "r1 = ws @ r2" "\<forall>x \<in> set ws. is_ws x" "st3 = MState (rev ws @ m # b) r2 None"
    by blast
  from group_plus_sound [OF 4 [unfolded ws(3)]] obtain w r3 where
    w: "r2 = w @ r3" "st4 = MState (rev w @ rev ws @ m # b) r3 (Some w)"
    by blast
  from 5 have "st = st4" and "r3 = []"
    by (simp_all only: w(2) eol_mem)
  with w have "cap1 st = Some w" "r2 = w" by simp_all
  moreover from m(2) have "m = 45 \<or> m = 42" by (auto simp: one_of_def js_def)
  ultimately show ?thesis using m(1) ws(1,2) b by auto
qed

lemma ordered_shape:
  assumes "st \<in> set (rmatch ordered_item (MState b s None))"
  shows "\<exists>ds ws w. s = (ds @ 46 # ws) @ w \<and> (\<forall>x \<in> set ds. digit x) \<and> (\<forall>x \<in> set ws. is_ws x)
           \<and> b = [] \<and> cap1 st = Some w"
proof -
  from assms obtain st1 st2 st3 st4 st5 where
    1: "st1 \<in> set (rmatch (Bol False) (MState b s None))"
    and 2: "st2 \<in> set (rmatch (Plus (Chr digit)) st1)"
    and 3: "st3 \<in> set (rmatch (Chr (chr 46)) st2)"
    and 4: "st4 \<in> set (rmatch (Plus (Chr is_ws)) st3)"
    and 5: "st5 \<in> set (rmatch (Group (Plus (Chr dot))) st4)"
    and 6: "st \<in> set (rmatch (Eol False) st5)"
    by (auto simp only: ordered_item_def seqs.simps seq_mem rmatch.simps(1) list.set
        singleton_iff)
  from 1 have s1: "st1 = MState b s None" and b: "b = []"
    by (simp_all only: bol_mem)
  from plus_sound [OF 2 [unfolded s1]] obtain ds r1 where
    ds: "s = ds @ r1" "\<forall>x \<in> set ds. digit x" "st2 = MState (rev ds @ b) r1 None"
    by blast
  from chr_sound [OF 3 [unfolded ds(3)]] obtain m r2 where
    m: "r1 = m # r2" "chr 46 m" "st3 = MState (m # rev ds @ b) r2 None"
    by blast
  from plus_sound [OF 4 [unfolded m(3)]] obtain ws r3 where
    ws: "r2 = ws @ r3" "\<forall>x \<in> set ws. is_ws x" "st4 = MState (rev ws @ m # rev ds @ b) r3 None"
    by blast
  from group_plus_sound [OF 5 [unfolded ws(3)]] obtain w r4 where
    w: "r3 = w @ r4" "st5 = MState (rev w @ rev ws @ m # rev ds @ b) r4 (Some w)"
    by blast
  from 6 have "st = st5" and "r4 = []"
    by (simp_all only: w(2) eol_mem)
  with w have "cap1 st = Some w" "r3 = w" by simp_all
  moreover from m(2) have "m = 46" by (simp add: chr_def)
  ultimately show ?thesis using ds(1,2) m(1) ws(1,2) b by auto
qed

lemma item_holds:
  assumes ph: "is_placeholder tok" and inc: "js_includes line tok"
    and ex: "exec_from R [] line = Some (b', st)"
    and shape: "\<And>b s st. st \<in> set (rmatch R (MState b s None)) \<Longrightarrow>
                  \<exists>d w. s = d @ w \<and> 91 \<notin> set d \<and> b = [] \<and> cap1 st = Some w"
  shows "\<exists>w. cap1 st = Some w \<and> js_includes w tok"
proof -
  from inc obtain a c where l: "line = a @ tok @ c" by (auto simp: js_includes_iff)
  from exec_from_sound [OF ex] obtain p s' where
    p: "line = p @ s'" "b' = rev p @ []" "st \<in> set (rmatch R (MState b' s' None))"
    by blast
  from shape [OF p(3)] obtain d w where
    d: "s' = d @ w" "91 \<notin> set d" "b' = []" "cap1 st = Some w"
    by blast
  from p(2) d(3) have "p = []" by simp
  with p(1) d(1) l have eq: "a @ tok @ c = d @ w @ [] @ []" by simp
  from placeholder_shape(1) [OF ph] have tok: "tok \<noteq> []" .
  from placeholder_parts(2) [OF ph] d(2) have h1: "hd tok \<notin> set d" by simp
  have h2: "hd tok \<notin> set []" by simp
  from span_cases [OF eq tok h1 h2] tok have "\<exists>u v. w = u @ tok @ v" by auto
  with d(4) show ?thesis by (simp add: js_includes_iff)
qed

lemma unordered_holds:
  assumes "is_placeholder tok" and "js_includes line tok"
    and "match1 unordered_item line = Some item"
  shows "js_includes item tok"
proof -
  from assms(3) obtain b' st where ex: "exec_from unordered_item [] line = Some (b', st)"
    and item: "item = (case cap1 st of None \<Rightarrow> [] | Some x \<Rightarrow> x)"
    by (auto simp: match1_def split: option.splits)
  have "\<exists>w. cap1 st = Some w \<and> js_includes w tok"
  proof (rule item_holds [OF assms(1,2) ex])
    fix b s st
    assume "st \<in> set (rmatch unordered_item (MState b s None))"
    from unordered_shape [OF this] obtain m ws w where
      "s = (m # ws) @ w" "m = 45 \<or> m = 42" "\<forall>x \<in> set ws. is_ws x" "b = []" "cap1 st = Some w"
      by blast
    moreover from this have "91 \<notin> set (m # ws)" by (auto simp: is_ws_def)
    ultimately show "\<exists>d w. s = d @ w \<and> 91 \<notin> set d \<and> b = [] \<and> cap1 st = Some w"
      by blast
  qed
  with item show ?thesis by auto
qed

lemma ordered_holds:
  assumes "is_placeholder tok" and "js_includes line tok"
    and "match1 ordered_item line = Some item"
  shows "js_includes item tok"
proof -
  from assms(3) obtain b' st where ex: "exec_from ordered_item [] line = Some (b', st)"
    and item: "item = (case cap1 st of None \<Rightarrow> [] | Some x \<Rightarrow> x)"
    by (auto simp: match1_def split: option.splits)
  have "\<exists>w. cap1 st = Some w \<and> js_includes w tok"
  proof (rule item_holds [OF assms(1,2) ex])
    fix b s st
    assume "st \<in> set (rmatch ordered_item (MState b s None))"
    from ordered_shape [OF this] obtain ds ws w where
      "s = (ds @ 46 # ws) @ w" "\<forall>x \<in> set ds. digit x" "\<forall>x \<in> set ws. is_ws x" "b = []"
      "cap1 st = Some w"
      by blast
    moreover from this have "91 \<notin> set (ds @ 46 # ws)" by (auto simp: is_ws_def digit_def)
    ultimately show "\<exists>d w. s = d @ w \<and> 91 \<notin> set d \<and> b = [] \<and> cap1 st = Some w"
      by blast
  qed
  with item show ?thesis by auto
qed

lemma carried_push:
  "(\<exists>e \<in> set (processedLines b). K e) \<or> K x \<Longrightarrow> \<exists>e \<in> set (processedLines (push x b)). K e"
  by (auto simp: push_def)

lemma carried_close_ul:
  "\<exists>e \<in> set (processedLines b). K e \<Longrightarrow> \<exists>e \<in> set (processedLines (close_ul b)). K e"
  by (auto simp: close_ul_def push_def)

lemma carried_close_ol:
  "\<exists>e \<in> set (processedLines b). K e \<Longrightarrow> \<exists>e \<in> set (processedLines (close_ol b)). K e"
  by (auto simp: close_ol_def push_def)

lemma carried_amend:
  assumes mono: "\<And>e z. K e \<Longrightarrow> K (e @ z)"
    and ne: "ps \<noteq> []" and k: "\<exists>e \<in> set ps. K e"
  shows "\<exists>e \<in> set (butlast ps @ [last ps @ z]). K e"
proof -
  from k obtain e where e: "e \<in> set ps" "K e" by blast
  from ne have "ps = butlast ps @ [last ps]" by simp
  with e(1) have "e \<in> set (butlast ps) \<or> e = last ps"
    by (metis Un_iff empty_iff empty_set set_ConsD set_append)
  then show ?thesis
  proof
    assume "e \<in> set (butlast ps)"
    with e(2) show ?thesis by auto
  next
    assume "e = last ps"
    with e(2) mono have "K (last ps @ z)" by simp
    then show ?thesis by simp
  qed
qed

lemma process_line_paragraph:
  assumes "match1 unordered_item (trim raw) = None" and "match1 ordered_item (trim raw) = None"
  shows "process_line raw b =
     (let line = trim raw; b = close_ol (close_ul b) in
                if line = []
                then (if processedLines b \<noteq> [] \<and> \<not> last_ends b ''</p>''
                      then push (js ''</p><p>'') b else b)
                else if processedLines b = [] \<or> last_ends b ''</p>'' \<or> last_ends b ''</ul>''
                        \<or> last_ends b ''</ol>''
                then push (js ''<p>'' @ line) b
                else if last (processedLines b) = js ''</p><p>''
                then b\<lparr>processedLines := butlast (processedLines b) @ [js ''</p><p>'' @ line]\<rparr>
                else
                  (let b = (if processedLines b \<noteq> [] \<and> \<not> last_ends b ''</p>''
                               \<and> \<not> last_ends b ''</ul>'' \<and> \<not> last_ends b ''</ol>''
                            then b\<lparr>processedLines :=
                                     butlast (processedLines b)
                                     @ [last (processedLines b) @ js ''</p>'']\<rparr>
                            else b)
                   in push (js ''<p>'' @ line) b))"
  using assms by (simp add: process_line_def Let_def)

lemma process_line_unordered:
  assumes "match1 unordered_item (trim raw) = Some item"
  shows "process_line raw b =
          (let b = close_ol b;
               b = (if \<not> inUnorderedList b then (push (js ''<ul>'') b)\<lparr>inUnorderedList := True\<rparr>
                    else b)
           in push (js ''<li>'' @ item @ js ''</li>'') b)"
  using assms by (simp add: process_line_def Let_def)

lemma process_line_ordered:
  assumes "match1 unordered_item (trim raw) = None"
    and "match1 ordered_item (trim raw) = Some item"
  shows "process_line raw b =
          (let b = close_ul b;
               b = (if \<not> inOrderedList b then (push (js ''<ol>'') b)\<lparr>inOrderedList := True\<rparr>
                    else b)
           in push (js ''<li>'' @ item @ js ''</li>'') b)"
  using assms by (simp add: process_line_def Let_def)

lemma process_line_keeps:
  assumes mono: "\<And>e z. K e \<Longrightarrow> K (e @ z)"
    and k: "\<exists>e \<in> set (processedLines b). K e"
  shows "\<exists>e \<in> set (processedLines (process_line raw b)). K e"
proof (cases "match1 unordered_item (trim raw)")
  case (Some item)
  from carried_close_ol [OF k] have "\<exists>e \<in> set (processedLines (close_ol b)). K e" .
  then show ?thesis
    unfolding process_line_unordered [OF Some] Let_def
    by (intro carried_push disjI1) (auto simp: push_def)
next
  case None
  show ?thesis
  proof (cases "match1 ordered_item (trim raw)")
    case (Some item)
    from carried_close_ul [OF k] have "\<exists>e \<in> set (processedLines (close_ul b)). K e" .
    then show ?thesis
      unfolding process_line_ordered [OF None Some] Let_def
      by (intro carried_push disjI1) (auto simp: push_def)
  next
    case no: None
    define c where "c = close_ol (close_ul b)"
    from carried_close_ol [OF carried_close_ul [OF k]]
    have kc: "\<exists>e \<in> set (processedLines c). K e" by (simp add: c_def)
    then have ne: "processedLines c \<noteq> []" by auto
    from carried_amend [OF mono ne kc]
    have a1: "\<exists>e \<in> set (butlast (processedLines c) @ [last (processedLines c) @ z]). K e" for z .
    have a2: "last (processedLines c) = js ''</p><p>'' \<Longrightarrow>
              \<exists>e \<in> set (butlast (processedLines c) @ [js ''</p><p>'' @ z]). K e" for z
      using a1 [of z] by simp
    show ?thesis
      unfolding process_line_paragraph [OF None no] Let_def c_def [symmetric]
      using kc a1 a2 by (auto intro!: carried_push simp del: set_append)
  qed
qed

lemma process_line_holds:
  assumes ph: "is_placeholder tok" and inc: "js_includes raw tok"
  shows "\<exists>e \<in> set (processedLines (process_line raw b)). js_includes e tok"
proof -
  from placeholder_shape(1) [OF ph] have tok: "tok \<noteq> []" .
  from placeholder_parts(5) [OF ph] have ws: "\<forall>c \<in> set tok. \<not> is_ws c" by simp
  from trim_holds [OF tok ws inc] have line: "js_includes (trim raw) tok" .
  with tok have ne: "trim raw \<noteq> []" by (auto simp: js_includes_iff)
  show ?thesis
  proof (cases "match1 unordered_item (trim raw)")
    case (Some item)
    from unordered_holds [OF ph line Some]
    have "js_includes (js ''<li>'' @ item @ js ''</li>'') tok" by (rule js_includes_around)
    then show ?thesis
      unfolding process_line_unordered [OF Some] Let_def
      by (intro carried_push disjI2)
  next
    case None
    show ?thesis
    proof (cases "match1 ordered_item (trim raw)")
      case (Some item)
      from ordered_holds [OF ph line Some]
      have "js_includes (js ''<li>'' @ item @ js ''</li>'') tok" by (rule js_includes_around)
      then show ?thesis
        unfolding process_line_ordered [OF None Some] Let_def
        by (intro carried_push disjI2)
    next
      case no: None
      from line have 1: "js_includes (js ''<p>'' @ trim raw) tok"
        using js_includes_around [of "trim raw" tok "js ''<p>''" "[]"] by simp
      from line have 2: "js_includes (js ''</p><p>'' @ trim raw) tok"
        using js_includes_around [of "trim raw" tok "js ''</p><p>''" "[]"] by simp
      show ?thesis
        unfolding process_line_paragraph [OF None no] Let_def
        using ne 1 2 by (auto intro!: carried_push)
    qed
  qed
qed

lemma fold_process_line_holds:
  assumes ph: "is_placeholder tok"
  shows "(\<exists>e \<in> set (processedLines b). js_includes e tok) \<or> (\<exists>l \<in> set ls. js_includes l tok) \<Longrightarrow>
         \<exists>e \<in> set (processedLines (fold process_line ls b)). js_includes e tok"
proof (induction ls arbitrary: b)
  case Nil
  then show ?case by simp
next
  case (Cons l ls)
  have mono: "\<And>e z. js_includes e tok \<Longrightarrow> js_includes (e @ z) tok"
    using js_includes_around [of _ tok "[]"] by simp
  from Cons.prems
  have "(\<exists>e \<in> set (processedLines (process_line l b)). js_includes e tok)
        \<or> (\<exists>l \<in> set ls. js_includes l tok)"
    using process_line_keeps [of "\<lambda>e. js_includes e tok" b l, OF mono]
      process_line_holds [OF ph, of l b]
    by auto
  from Cons.IH [OF this] show ?case by simp
qed

lemma concat_holds:
  assumes "\<exists>e \<in> set ps. js_includes e tok"
  shows "js_includes (concat ps) tok"
proof -
  from assms obtain e where e: "e \<in> set ps" "js_includes e tok" by blast
  from split_list [OF e(1)] obtain xs ys where "ps = xs @ e # ys" by blast
  then have "concat ps = concat xs @ e @ concat ys" by simp
  with e(2) show ?thesis by (simp add: js_includes_around)
qed

lemma addOutlookStyles_holds:
  assumes ph: "is_placeholder tok" and inc: "js_includes s tok"
  shows "js_includes (addOutlookStyles s) tok"
proof -
  from inc obtain u v where "s = u @ tok @ v" by (auto simp: js_includes_iff)
  with addOutlookStyles_around [OF placeholder_shape [OF ph], of u v]
  show ?thesis unfolding js_includes_iff by blast
qed

lemma lines_hold:
  assumes ph: "is_placeholder tok" and inc: "js_includes html tok"
  shows "js_includes
     (let b = fold process_line (split_nl html)
                   \<lparr>processedLines = [], inUnorderedList = False, inOrderedList = False\<rparr>;
             b = (if inUnorderedList b then push (js ''</ul>'') b else b);
             b = (if inOrderedList b then push (js ''</ol>'') b else b);
             result = concat (processedLines b)
         in if js_includes result (js ''<p>'') \<and> \<not> endsWith result (js ''</p>'')
               \<and> \<not> endsWith result (js ''</ul>'') \<and> \<not> endsWith result (js ''</ol>'')
            then result @ js ''</p>''
            else if \<not> js_includes result (js ''<p>'') \<and> \<not> js_includes result (js ''<ul>'')
                    \<and> \<not> js_includes result (js ''ol>'')
            then addOutlookStyles (js ''<p>'' @ result @ js ''</p>'')
            else addOutlookStyles result) tok"
proof -
  define b1 where "b1 = fold process_line (split_nl html)
                   \<lparr>processedLines = [], inUnorderedList = False, inOrderedList = False\<rparr>"
  define b2 where "b2 = (if inUnorderedList b1 then push (js ''</ul>'') b1 else b1)"
  define b3 where "b3 = (if inOrderedList b2 then push (js ''</ol>'') b2 else b2)"
  define result where "result = concat (processedLines b3)"
  from inc obtain u v where h: "html = u @ tok @ v" by (auto simp: js_includes_iff)
  from placeholder_parts(5) [OF ph] have "10 \<notin> set tok" by auto
  from split_nl_holds [OF this, of u v] h
  have "\<exists>l \<in> set (split_nl html). js_includes l tok" by simp
  then have "\<exists>e \<in> set (processedLines b1). js_includes e tok"
    unfolding b1_def by (intro fold_process_line_holds [OF ph] disjI2)
  then have "\<exists>e \<in> set (processedLines b2). js_includes e tok"
    unfolding b2_def by (auto simp: push_def)
  then have "\<exists>e \<in> set (processedLines b3). js_includes e tok"
    unfolding b3_def by (auto simp: push_def)
  then have r: "js_includes result tok"
    unfolding result_def by (rule concat_holds)
  then have 1: "js_includes (result @ js ''</p>'') tok"
    using js_includes_around [of result tok "[]"] by simp
  from r have "js_includes (js ''<p>'' @ result @ js ''</p>'') tok"
    by (rule js_includes_around)
  then have 2: "js_includes (addOutlookStyles (js ''<p>'' @ result @ js ''</p>'')) tok"
    by (rule addOutlookStyles_holds [OF ph])
  from r have 3: "js_includes (addOutlookStyles result) tok"
    by (rule addOutlookStyles_holds [OF ph])
  from 1 2 3 show ?thesis
    unfolding Let_def b1_def [symmetric] b2_def [symmetric] b3_def [symmetric]
      result_def [symmetric]
    by simp
qed

lemma stands_alone_at:
  assumes "stands_alone tok (u @ tok @ v)"
  shows "\<not> has_lone False (line_before u)" and "\<not> has_lone False (line_after v)"
proof -
  have "length u \<in> set (occurrences tok (u @ tok @ v))"
    by (simp add: occurrences_def)
  with assms have "\<not> has_lone False (line_before (take (length u) (u @ tok @ v)))
      \<and> \<not> has_lone False (line_after (drop (length u + length tok) (u @ tok @ v)))"
    unfolding stands_alone_def by blast
  then show "\<not> has_lone False (line_before u)" and "\<not> has_lone False (line_after v)"
    by simp_all
qed

lemma before_italic_underscore_holds:
  assumes ph: "is_placeholder tok"
  shows "\<exists>u v. before_italic_underscore (pre @ tok @ post) = u @ tok @ v"
proof -
  from keeps_bold_stars [OF ph] obtain u1 v1 where
    1: "replace_all bold_stars [RLit (js ''<strong>''), RCap1, RLit (js ''</strong>'')]
          (pre @ tok @ post) = u1 @ tok @ v1"
    by blast
  from keeps_italic_star [OF ph] obtain u2 v2 where
    2: "replace_all italic_star [RLit (js ''<em>''), RCap1, RLit (js ''</em>'')]
          (u1 @ tok @ v1) = u2 @ tok @ v2"
    by blast
  from keeps_bold_underscores [OF ph] obtain u3 v3 where
    3: "replace_all bold_underscores [RLit (js ''<strong>''), RCap1, RLit (js ''</strong>'')]
          (u2 @ tok @ v2) = u3 @ tok @ v3"
    by blast
  from 1 2 3 have "before_italic_underscore (pre @ tok @ post) = u3 @ tok @ v3"
    by (simp add: before_italic_underscore_def Let_def)
  then show ?thesis by blast
qed

lemma markdown_path_holds:
  assumes ph: "is_placeholder tok"
    and nt: "\<not> test html_tag (pre @ tok @ post)"
    and sa: "stands_alone tok (before_italic_underscore (pre @ tok @ post))"
  shows "js_includes (formatBodyForInsert (pre @ tok @ post)) tok"
proof -
  from before_italic_underscore_holds [OF ph] obtain u v where
    uv: "before_italic_underscore (pre @ tok @ post) = u @ tok @ v"
    by blast
  from sa have "\<not> has_lone False (line_before u)" "\<not> has_lone False (line_after v)"
    unfolding uv by (rule stands_alone_at)+
  from keeps_italic_underscore [OF ph this] obtain u' v' where
    "replace_all italic_underscore [RLit (js ''<em>''), RCap1, RLit (js ''</em>'')]
       (u @ tok @ v) = u' @ tok @ v'"
    by blast
  then have "js_includes
       (replace_all italic_underscore [RLit (js ''<em>''), RCap1, RLit (js ''</em>'')]
          (before_italic_underscore (pre @ tok @ post))) tok"
    unfolding uv js_includes_iff by blast
  from lines_hold [OF ph this] nt show ?thesis
    by (simp add: formatBodyForInsert_def before_italic_underscore_def Let_def)
qed


text \<open>
  C1, as the code has it. \<open>formatBodyForInsert\<close> passes a placeholder token through
  unmodified in two cases. For every body that holds an HTML tag (the already-HTML path) the
  output is the styled text before the token, the token, and the styled text after it; so
  \<open><p>See [[TABLE_1]] below.</p>\<close> keeps \<open>[[TABLE_1]]\<close>. For every other body (the markdown
  path) the output holds the token whenever, in the text that reaches the rule for
  \<open>_italic_\<close>, no occurrence of the token shares its line with a lone underscore outside
  the token: the rules for \<open>**bold**\<close>, \<open>*italic*\<close>, \<open>__bold__\<close> and \<open>_italic_\<close>, the
  trimming of the lines, the list items, the paragraphs and the styles all leave it in
  place. So \<open>__Note__: see [[TABLE_1]] below.\<close> keeps \<open>[[TABLE_1]]\<close>.
\<close>

theorem formatBodyForInsert_keeps_placeholder:
  assumes "is_placeholder tok"
  shows "(test html_tag (pre @ tok @ post) \<longrightarrow>
            formatBodyForInsert (pre @ tok @ post)
              = addOutlookStyles pre @ tok @ addOutlookStyles post)
         \<and> (test html_tag (pre @ tok @ post)
              \<or> stands_alone tok (before_italic_underscore (pre @ tok @ post)) \<longrightarrow>
            js_includes (formatBodyForInsert (pre @ tok @ post)) tok)"
proof -
  have html: "formatBodyForInsert (pre @ tok @ post)
                = addOutlookStyles pre @ tok @ addOutlookStyles post"
    if "test html_tag (pre @ tok @ post)"
    using that addOutlookStyles_around [OF placeholder_shape [OF assms]]
    by (simp add: formatBodyForInsert_def)
  have "js_includes (formatBodyForInsert (pre @ tok @ post)) tok"
    if "test html_tag (pre @ tok @ post)"
    unfolding html [OF that] js_includes_iff by blast
  with html markdown_path_holds [OF assms] show ?thesis by blast
qed

theorem formatBodyForInsert_keeps_placeholder_witness:
  "is_placeholder (js ''[[TABLE_1]]'')
   \<and> test html_tag (js ''<p>See '' @ js ''[[TABLE_1]]'' @ js '' below.</p>'')
   \<and> formatBodyForInsert (js ''<p>See '' @ js ''[[TABLE_1]]'' @ js '' below.</p>'')
       = p_style @ js ''See '' @ js ''[[TABLE_1]]'' @ js '' below.</p>''
   \<and> stands_alone (js ''[[TABLE_1]]'')
       (before_italic_underscore (js ''__Note__: see '' @ js ''[[TABLE_1]]'' @ js '' below.''))
   \<and> js_includes
       (formatBodyForInsert (js ''__Note__: see '' @ js ''[[TABLE_1]]'' @ js '' below.''))
       (js ''[[TABLE_1]]'')"
proof -
  have p: "is_placeholder (js ''[[TABLE_1]]'')"
    by code_simp
  have h: "test html_tag (js ''<p>See '' @ js ''[[TABLE_1]]'' @ js '' below.</p>'')"
    by code_simp
  have a: "addOutlookStyles (js ''<p>See '') = p_style @ js ''See ''"
    by code_simp
  have b: "addOutlookStyles (js '' below.</p>'') = js '' below.</p>''"
    by code_simp
  have s: "stands_alone (js ''[[TABLE_1]]'')
       (before_italic_underscore (js ''__Note__: see '' @ js ''[[TABLE_1]]'' @ js '' below.''))"
    by code_simp
  from formatBodyForInsert_keeps_placeholder [OF p, of "js ''<p>See ''" "js '' below.</p>''"]
    formatBodyForInsert_keeps_placeholder [OF p, of "js ''__Note__: see ''" "js '' below.''"]
    a b p h s
  show ?thesis by simp
qed

text \<open>
  On the markdown path the underscores of two placeholders on one line are read as the
  marks of an italic span, and both tokens are rewritten.
\<close>

theorem formatBodyForInsert_placeholder_counterexample:
  "is_placeholder (js ''[[TABLE_1]]'')
   \<and> js_includes (js ''See [[TABLE_1]] and [[IMAGE_2]]'') (js ''[[TABLE_1]]'')
   \<and> formatBodyForInsert (js ''See [[TABLE_1]] and [[IMAGE_2]]'')
       = js ''<p>See [[TABLE<em>1]] and [[IMAGE</em>2]]</p>''
   \<and> \<not> js_includes (formatBodyForInsert (js ''See [[TABLE_1]] and [[IMAGE_2]]''))
           (js ''[[TABLE_1]]'')"
  by code_simp

text \<open>
  C4. For the markdown \<open>- item one\<close>, \<open>- item two\<close>, an empty line, \<open>Second paragraph\<close> the
  specification asks for one list of two items, then one paragraph, and no stray paragraph
  tag. The code returns the list, then a closing \<open></p>\<close> that closes nothing, then the
  paragraph: the empty line after the list pushes \<open></p><p>\<close>.
\<close>

theorem formatBodyForInsert_list_then_paragraph:
  "formatBodyForInsert (js ''- item one\<newline>- item two\<newline>\<newline>Second paragraph'')
     = js ''<ul><li>item one</li><li>item two</li></ul></p><p>Second paragraph</p>''"
  by code_simp

text \<open>
  C8. The specification asks that formatting the formatter's own output changes nothing.
  For the body \<open>Hello\<close> the markdown path returns \<open><p>Hello</p>\<close> with no style injected; formatted
  again, that output takes the already-HTML path and comes back with the style.
\<close>

theorem formatBodyForInsert_twice:
  "formatBodyForInsert (js ''Hello'') = js ''<p>Hello</p>''
   \<and> formatBodyForInsert (formatBodyForInsert (js ''Hello'')) = p_style @ js ''Hello</p>''
   \<and> formatBodyForInsert (formatBodyForInsert (js ''Hello'')) \<noteq> formatBodyForInsert (js ''Hello'')"
  by code_simp

section \<open>Properties of the preserved fragments\<close>

lemma ids_of_append: "ids_of (xs @ ys) = ids_of xs @ ids_of ys"
  by (simp add: ids_of_def)

lemma suffix_dropWhile: "\<exists>b. xs = b @ dropWhile P xs"
  by (metis takeWhile_dropWhile_id)

text \<open>
  C6. For every document (its nodes having distinct identities), the children of \<open>temp\<close>
  are some draft nodes, then the nodes of \<open>signatureHtml\<close>, then the nodes of \<open>threadHtml\<close>:
  the thread block and its following siblings are taken off before the signature is
  looked for, and no node of the document is in both fragments.
\<close>

theorem preserved_fragments_disjoint:
  assumes "distinct (ids_of temp)"
  shows "(\<exists>draft. temp = draft
              @ signatureHtml (extractPreservedContent tpl temp)
              @ threadHtml (extractPreservedContent tpl temp))
         \<and> set (ids_of (signatureHtml (extractPreservedContent tpl temp)))
           \<inter> set (ids_of (threadHtml (extractPreservedContent tpl temp))) = {}"
proof -
  let ?r = "extractPreservedContent tpl temp"
  have "\<exists>remaining. temp = remaining @ threadHtml ?r
          \<and> (\<exists>draft. remaining = draft @ signatureHtml ?r)"
  proof (cases "threadElement_preserved temp")
    case None
    then show ?thesis
      by (auto simp: extractPreservedContent_def suffix_dropWhile split: option.splits)
  next
    case (Some el)
    let ?P = "\<lambda>n. \<not> contains n (nid el)"
    have "temp = takeWhile ?P temp @ dropWhile ?P temp" by simp
    moreover from Some have "threadHtml ?r = dropWhile ?P temp"
      by (simp add: extractPreservedContent_def)
    moreover from Some have "\<exists>draft. takeWhile ?P temp = draft @ signatureHtml ?r"
      by (auto simp: extractPreservedContent_def suffix_dropWhile split: option.splits)
    ultimately show ?thesis by metis
  qed
  then obtain draft where split: "temp = draft @ signatureHtml ?r @ threadHtml ?r"
    by auto
  with assms have "distinct (ids_of (draft @ signatureHtml ?r @ threadHtml ?r))"
    by simp
  then have "set (ids_of (signatureHtml ?r)) \<inter> set (ids_of (threadHtml ?r)) = {}"
    by (simp add: ids_of_append)
  with split show ?thesis by blast
qed

theorem preserved_fragments_disjoint_witness:
  "distinct (ids_of reply_doc)
   \<and> signatureHtml (extractPreservedContent None reply_doc)
       = [Element 3 ''div'' [(''id'', js ''Signature'')] [Element 4 ''p'' [] [Text 5 (js ''John Doe'')]]]
   \<and> threadHtml (extractPreservedContent None reply_doc)
       = [Element 6 ''div'' [(''id'', js ''divRplyFwdMsg'')] [Text 7 (js ''From: A Sent: B'')],
          Element 8 ''div'' [] [Text 9 (js ''Old message'')]]
   \<and> set (ids_of (signatureHtml (extractPreservedContent None reply_doc)))
       \<inter> set (ids_of (threadHtml (extractPreservedContent None reply_doc))) = {}"
proof -
  have d: "distinct (ids_of reply_doc)"
    by code_simp
  have s: "signatureHtml (extractPreservedContent None reply_doc)
       = [Element 3 ''div'' [(''id'', js ''Signature'')] [Element 4 ''p'' [] [Text 5 (js ''John Doe'')]]]"
    by code_simp
  have t: "threadHtml (extractPreservedContent None reply_doc)
       = [Element 6 ''div'' [(''id'', js ''divRplyFwdMsg'')] [Text 7 (js ''From: A Sent: B'')],
          Element 8 ''div'' [] [Text 9 (js ''Old message'')]]"
    by code_simp
  from preserved_fragments_disjoint [OF d, of None]
  have "set (ids_of (signatureHtml (extractPreservedContent None reply_doc)))
       \<inter> set (ids_of (threadHtml (extractPreservedContent None reply_doc))) = {}"
    by blast
  with d s t show ?thesis
    by blast
qed

section \<open>Properties of the capture cycle\<close>

lemma capture_keeps_template:
  "initialBodyTemplate s = Some tpl \<Longrightarrow>
   initialBodyTemplate (captureEmailBody t r s) = Some tpl"
  by (cases r) (simp_all add: captureEmailBody_def Let_def)

lemma captures_keep_template:
  "initialBodyTemplate s = Some tpl \<Longrightarrow> initialBodyTemplate (captures rs s) = Some tpl"
proof (induction rs arbitrary: s)
  case Nil
  then show ?case by simp
next
  case (Cons r rs)
  obtain t h where r: "r = (t, h)" by (cases r)
  from Cons.prems have "initialBodyTemplate (captureEmailBody t h s) = Some tpl"
    by (rule capture_keeps_template)
  from Cons.IH [OF this] show ?case by (simp add: r)
qed

text \<open>
  C7. While the template is \<open>null\<close>, a failed read leaves it so and the first successful
  read sets it to the parsed current message, trimmed. Once it is set, no run of later
  captures changes it, and a capture only passes it to \<open>stripSignature\<close>.
\<close>

theorem initialBodyTemplate_captured_once:
  "(initialBodyTemplate s = None \<longrightarrow>
      initialBodyTemplate (captureEmailBody t Failed s) = None
      \<and> initialBodyTemplate (captureEmailBody t (Succeeded doc) s)
          = Some (trim (currentMessage (parseEmailHtml doc))))
   \<and> (\<forall>tpl. initialBodyTemplate s = Some tpl \<longrightarrow>
         initialBodyTemplate (captures rs s) = Some tpl
         \<and> currentEmailBody (captureEmailBody t (Succeeded doc) s)
             = stripSignature (currentMessage (parseEmailHtml doc)) (Some tpl))"
proof (intro conjI impI allI)
  assume "initialBodyTemplate s = None"
  then show "initialBodyTemplate (captureEmailBody t Failed s) = None"
    and "initialBodyTemplate (captureEmailBody t (Succeeded doc) s)
          = Some (trim (currentMessage (parseEmailHtml doc)))"
    by (simp_all add: captureEmailBody_def Let_def)
next
  fix tpl
  assume tpl: "initialBodyTemplate s = Some tpl"
  then show "initialBodyTemplate (captures rs s) = Some tpl"
    by (rule captures_keep_template)
  from tpl show "currentEmailBody (captureEmailBody t (Succeeded doc) s)
             = stripSignature (currentMessage (parseEmailHtml doc)) (Some tpl)"
    by (simp add: captureEmailBody_def Let_def)
qed

theorem initialBodyTemplate_captured_once_witness:
  "initialBodyTemplate initial_session = None
   \<and> initialBodyTemplate (captureEmailBody True (Succeeded signature_only) initial_session)
       = Some (js ''John Doe, ACME Corp'')
   \<and> initialBodyTemplate
         (captures [(True, Succeeded typed_above_signature), (False, Failed)]
            (captureEmailBody True (Succeeded signature_only) initial_session))
       = Some (js ''John Doe, ACME Corp'')
   \<and> currentEmailBody
         (captureEmailBody True (Succeeded typed_above_signature)
            (captureEmailBody True (Succeeded signature_only) initial_session))
       = js ''Hello Bob,''"
proof -
  let ?s1 = "captureEmailBody True (Succeeded signature_only) initial_session"
  have n: "initialBodyTemplate initial_session = None"
    by (simp add: initial_session_def)
  have m: "trim (currentMessage (parseEmailHtml signature_only)) = js ''John Doe, ACME Corp''"
    by code_simp
  from initialBodyTemplate_captured_once [of initial_session True signature_only] n m
  have s1: "initialBodyTemplate ?s1 = Some (js ''John Doe, ACME Corp'')"
    by simp
  have b: "stripSignature (currentMessage (parseEmailHtml typed_above_signature))
             (Some (js ''John Doe, ACME Corp'')) = js ''Hello Bob,''"
    by code_simp
  from initialBodyTemplate_captured_once
         [of ?s1 True typed_above_signature "[(True, Succeeded typed_above_signature), (False, Failed)]"]
       s1 b
  have "initialBodyTemplate
          (captures [(True, Succeeded typed_above_signature), (False, Failed)] ?s1)
          = Some (js ''John Doe, ACME Corp'')
        \<and> currentEmailBody (captureEmailBody True (Succeeded typed_above_signature) ?s1)
          = js ''Hello Bob,''"
    by simp
  with n s1 show ?thesis
    by blast
qed

section \<open>Properties of the completion result\<close>

text \<open>
  What a value leaves of the input is less than the input: the tests on the lengths in
  \<open>parse_elements\<close> and \<open>parse_members\<close> never fail.
\<close>

lemma skip_ws_length: "length (skip_ws s) \<le> length s"
  by (simp add: skip_ws_def length_dropWhile_le)

lemma json_chars_shrinks: "json_chars s = Some (x, r) \<Longrightarrow> length r < length s"
proof (induction s arbitrary: x r rule: json_chars.induct)
  case 1
  then show ?case by simp
next
  case (2 c cs)
  then show ?case
    by (fastforce split: if_splits list.splits option.splits)
qed

lemma literal_shrinks: "literal k s = Some r \<Longrightarrow> k \<noteq> [] \<Longrightarrow> length r < length s"
  by (cases s) (auto simp: literal_def js_def split: if_splits)

lemma json_number_shrinks: "json_number s = Some (x, r) \<Longrightarrow> length r < length s"
proof -
  have dw: "length (dropWhile digit t) \<le> length t" for t
    by (rule length_dropWhile_le)
  have i: "json_int t = Some (a, u) \<Longrightarrow> length u < length t" for t a u
    using dw by (cases t) (auto simp: json_int_def le_imp_less_Suc split: if_splits)
  have f: "json_frac t = Some (a, u) \<Longrightarrow> length u \<le> length t" for t a u
    using dw by (cases t) (auto simp: json_frac_def le_SucI split: if_splits)
  have e: "json_exp t = Some (a, u) \<Longrightarrow> length u \<le> length t" for t a u
  proof (cases t)
    case Nil
    then show "json_exp t = Some (a, u) \<Longrightarrow> length u \<le> length t"
      by (simp add: json_exp_def)
  next
    case (Cons c cs)
    assume "json_exp t = Some (a, u)"
    with Cons dw [of cs] dw [of "tl cs"] show "length u \<le> length t"
      by (cases cs) (auto simp: json_exp_def Let_def le_SucI split: if_splits)
  qed
  assume "json_number s = Some (x, r)"
  with i f e show ?thesis
    by (cases s) (fastforce simp: json_number_def split: if_splits option.splits)+
qed

lemma skip_ws_Cons: "skip_ws s = d # ds \<Longrightarrow> length ds < length s"
  using skip_ws_length [of s] by simp

lemma parse_value_shrinks:
  "parse_value s = Some (v, r) \<Longrightarrow> length r < length s"
  "parse_elements s = Some (vs, r) \<Longrightarrow> length r < length s"
  "parse_members s = Some (ms, r) \<Longrightarrow> length r < length s"
proof (induction s and s and s arbitrary: v r and vs r and ms r
       rule: parse_value_parse_elements_parse_members.induct)
  case 1
  then show ?case by simp
next
  case (2 c cs)
  note p = "2.prems"
  consider (obj) "c = 123" | (arr) "c = 91" | (str) "c = 34" | (tr) "c = 116" | (fa) "c = 102"
    | (nu) "c = 110" | (num) "c \<noteq> 123" "c \<noteq> 91" "c \<noteq> 34" "c \<noteq> 116" "c \<noteq> 102" "c \<noteq> 110"
    by blast
  then show ?case
  proof cases
    case obj
    with p obtain d ds where sk: "skip_ws cs = d # ds"
      by (auto split: list.splits)
    show ?thesis
    proof (cases "d = 125")
      case True
      with p obj sk have "r = ds" by simp
      with skip_ws_Cons [OF sk] show ?thesis by simp
    next
      case False
      with p obj sk obtain ms where "parse_members (d # ds) = Some (ms, r)"
        by auto
      from "2.IH"(1) [OF obj sk False this] skip_ws_Cons [OF sk] show ?thesis
        by simp
    qed
  next
    case arr
    with p obtain d ds where sk: "skip_ws cs = d # ds"
      by (auto split: list.splits)
    show ?thesis
    proof (cases "d = 93")
      case True
      with p arr sk have "r = ds" by simp
      with skip_ws_Cons [OF sk] show ?thesis by simp
    next
      case False
      with p arr sk obtain vs where "parse_elements (d # ds) = Some (vs, r)"
        by auto
      moreover from arr have "c \<noteq> 123" by simp
      ultimately have "length r < length (d # ds)"
        using arr sk False by (intro "2.IH"(2))
      with skip_ws_Cons [OF sk] show ?thesis
        by simp
    qed
  next
    case str
    with p obtain x where "json_chars cs = Some (x, r)"
      by auto
    from json_chars_shrinks [OF this] show ?thesis by simp
  next
    case tr
    with p have "literal ''true'' (c # cs) = Some r"
      by auto
    from literal_shrinks [OF this] show ?thesis by simp
  next
    case fa
    with p have "literal ''false'' (c # cs) = Some r"
      by auto
    from literal_shrinks [OF this] show ?thesis by simp
  next
    case nu
    with p have "literal ''null'' (c # cs) = Some r"
      by auto
    from literal_shrinks [OF this] show ?thesis by simp
  next
    case num
    with p obtain x where "json_number (c # cs) = Some (x, r)"
      by auto
    from json_number_shrinks [OF this] show ?thesis .
  qed
next
  case (3 s)
  note p = "3.prems"
  from p obtain v r1 where v: "parse_value s = Some (v, r1)" and l: "length r1 < length s"
    by (auto simp del: parse_value.simps split: option.splits if_splits)
  with p obtain d ds where sk: "skip_ws r1 = d # ds"
    by (auto simp del: parse_value.simps split: list.splits)
  show ?case
  proof (cases "d = 93")
    case True
    with p v l sk have "r = ds" by (simp del: parse_value.simps)
    with skip_ws_Cons [OF sk] l show ?thesis by simp
  next
    case False
    with p v l sk have d: "d = 44"
      by (auto simp del: parse_value.simps split: if_splits)
    with v l sk False obtain vs' where e: "parse_elements (skip_ws ds) = Some (vs', r)"
      using p
      by (subst (asm) parse_elements.simps) (auto simp del: parse_value.simps parse_elements.simps)
    from "3.IH"(2) [OF v refl l sk False d e] skip_ws_length [of ds] skip_ws_Cons [OF sk] l
    show ?thesis by simp
  qed
next
  case 4
  then show ?case by simp
next
  case (5 q cs)
  note p = "5.prems"
  from p have q: "q = 34"
    by (auto split: if_splits)
  with p obtain k r0 where k: "json_chars cs = Some (k, r0)"
    by (auto simp del: parse_value.simps split: option.splits)
  with p q obtain colon r1 where sk: "skip_ws r0 = colon # r1"
    by (auto simp del: parse_value.simps split: list.splits)
  with p q k have co: "colon = 58"
    by (auto simp del: parse_value.simps split: if_splits)
  with p q k sk obtain v r2 where v: "parse_value (skip_ws r1) = Some (v, r2)"
    and l: "length r2 < length (skip_ws r1)"
    by (auto simp del: parse_value.simps split: option.splits if_splits)
  with p q k sk co obtain d ds where sk2: "skip_ws r2 = d # ds"
    by (auto simp del: parse_value.simps split: list.splits)
  have bound: "length r2 < length cs"
    using json_chars_shrinks [OF k] skip_ws_Cons [OF sk] skip_ws_length [of r1] l by simp
  show ?case
  proof (cases "d = 125")
    case True
    with p q k sk co v l sk2 have "r = ds" by (simp del: parse_value.simps)
    with skip_ws_Cons [OF sk2] bound show ?thesis by simp
  next
    case False
    with p q k sk co v l sk2 have d: "d = 44"
      by (auto simp del: parse_value.simps split: if_splits)
    with q k sk co v l sk2 False obtain ms' where m: "parse_members (skip_ws ds) = Some (ms', r)"
      using p
      by (subst (asm) parse_members.simps(2)) (auto simp del: parse_value.simps parse_members.simps)
    have "length r < length (skip_ws ds)"
      by (rule "5.IH"(2)) (use q k sk co v l sk2 False d m in \<open>simp_all del: parse_value.simps\<close>)
    with skip_ws_length [of ds] skip_ws_Cons [OF sk2] bound show ?thesis by simp
  qed
qed

text \<open>
  C9, as the code has it. For every response text on which \<open>JSON.parse\<close> throws,
  \<open>handleProcess\<close> sets \<open>currentResult\<close> to the empty subject with the whole text as body and
  shows no error. A text that parses is stored as parsed, whatever fields it has.
\<close>

theorem handleProcess_unparseable:
  "(JSON_parse result = None \<longrightarrow>
      handleProcess (Inr result) tp =
        tp\<lparr>currentResult := JObject [(js ''subject'', JString []), (js ''body'', JString result)],
           errorMessage := None\<rparr>)
   \<and> (\<forall>v. JSON_parse result = Some v \<longrightarrow>
         currentResult (handleProcess (Inr result) tp) = v)"
proof (intro conjI impI allI)
  assume none: "JSON_parse result = None"
  have "js ''body'' \<noteq> js ''subject''"
    by (simp add: js_def)
  then have "\<not> displayResults_throws
               (JObject [(js ''subject'', JString []), (js ''body'', JString result)])"
    by (simp add: displayResults_throws_def get_prop_def)
  with none show "handleProcess (Inr result) tp =
        tp\<lparr>currentResult := JObject [(js ''subject'', JString []), (js ''body'', JString result)],
           errorMessage := None\<rparr>"
    by (simp add: handleProcess_def Let_def)
next
  fix v
  assume "JSON_parse result = Some v"
  then show "currentResult (handleProcess (Inr result) tp) = v"
    by (simp add: handleProcess_def Let_def)
qed

theorem handleProcess_unparseable_witness:
  "JSON_parse (js ''Sorry, I can't help'') = None
   \<and> handleProcess (Inr (js ''Sorry, I can't help'')) initial_taskpane
       = \<lparr>currentResult =
            JObject [(js ''subject'', JString []), (js ''body'', JString (js ''Sorry, I can't help''))],
          errorMessage = None\<rparr>
   \<and> JSON_parse (js ''[1, 2]'') = Some (JArray [JNumber (js ''1''), JNumber (js ''2'')])
   \<and> currentResult (handleProcess (Inr (js ''[1, 2]'')) initial_taskpane)
       = JArray [JNumber (js ''1''), JNumber (js ''2'')]"
proof -
  have h: "JSON_parse (js ''Sorry, I can't help'') = None"
    by code_simp
  have g: "JSON_parse (js ''[1, 2]'') = Some (JArray [JNumber (js ''1''), JNumber (js ''2'')])"
    by code_simp
  from handleProcess_unparseable [of "js ''Sorry, I can't help''" initial_taskpane] h
  have a: "handleProcess (Inr (js ''Sorry, I can't help'')) initial_taskpane
       = \<lparr>currentResult =
            JObject [(js ''subject'', JString []), (js ''body'', JString (js ''Sorry, I can't help''))],
          errorMessage = None\<rparr>"
    by (simp add: initial_taskpane_def)
  from handleProcess_unparseable [of "js ''[1, 2]''" initial_taskpane] g
  have b: "currentResult (handleProcess (Inr (js ''[1, 2]'')) initial_taskpane)
       = JArray [JNumber (js ''1''), JNumber (js ''2'')]"
    by blast
  from h a g b show ?thesis
    by blast
qed

text \<open>
  The text \<open>{}\<close> (what the providers return when the vendor sends no content) is JSON
  without the expected fields: it is stored as the empty object, not as a body.
\<close>

theorem handleProcess_missing_fields_counterexample:
  "JSON_parse (js ''{}'') = Some (JObject [])
   \<and> currentResult (handleProcess (Inr (js ''{}'')) initial_taskpane) = JObject []
   \<and> currentResult (handleProcess (Inr (js ''{}'')) initial_taskpane)
       \<noteq> JObject [(js ''subject'', JString []), (js ''body'', JString (js ''{}''))]"
  by code_simp

section \<open>Properties of the saved prompts\<close>

lemma findIndex_None_iff: "findIndex P xs = None \<longleftrightarrow> (\<forall>x \<in> set xs. \<not> P x)"
  by (induction xs) auto

lemma findIndex_Some:
  "findIndex P xs = Some k \<Longrightarrow> k < length xs \<and> P (xs ! k) \<and> (\<forall>j < k. \<not> P (xs ! j))"
proof (induction xs arbitrary: k)
  case Nil
  then show ?case by simp
next
  case (Cons x xs)
  show ?case
  proof (cases "P x")
    case True
    with Cons.prems show ?thesis by simp
  next
    case False
    with Cons.prems obtain k' where k': "findIndex P xs = Some k'" "k = Suc k'"
      by auto
    from Cons.IH [OF k'(1)] False k'(2) show ?thesis
      by (auto simp: less_Suc_eq_0_disj)
  qed
qed

lemma filter_length_eq_iff: "length (filter P xs) = length xs \<longleftrightarrow> (\<forall>x \<in> set xs. P x)"
proof (induction xs)
  case Nil
  then show ?case by simp
next
  case (Cons x xs)
  have le: "length (filter P xs) \<le> length xs" by simp
  show ?case
  proof (cases "P x")
    case True
    with Cons show ?thesis by simp
  next
    case False
    from le have "length (filter P xs) \<noteq> Suc (length xs)" by arith
    with False show ?thesis by simp
  qed
qed

text \<open>
  C10, as the code has it. When no stored prompt has the given id, \<open>update\<close> and \<open>delete\<close>
  return false and leave the storage as it was (no write, same saved list). When some
  prompt has the id, \<open>update\<close> returns true and makes one write, of the list in which the
  first prompt with that id has its name and instruction replaced by the trimmed
  arguments, keeps its id, and every other position holds the prompt it held before. The
  saved list is that list when \<open>localStorage.setItem\<close> takes the write, and the list as it
  was when \<open>localStorage.setItem\<close> throws.
\<close>

theorem promptManager_update_delete:
  "(i \<notin> id ` set (getAll st) \<longrightarrow>
      update i n ins st = (False, st) \<and> delete i st = (False, st))
   \<and> (i \<in> id ` set (getAll st) \<longrightarrow>
      (\<exists>k < length (getAll st). \<exists>written.
         id (getAll st ! k) = i
         \<and> (\<forall>j < k. id (getAll st ! j) \<noteq> i)
         \<and> fst (update i n ins st)
         \<and> setItem_calls (snd (update i n ins st)) = Suc (setItem_calls st)
         \<and> length written = length (getAll st)
         \<and> name (written ! k) = trim n
         \<and> instruction (written ! k) = trim ins
         \<and> id (written ! k) = i
         \<and> (\<forall>j < length (getAll st). j \<noteq> k \<longrightarrow> written ! j = getAll st ! j)
         \<and> (\<not> setItem_throws st written \<longrightarrow> getAll (snd (update i n ins st)) = written)
         \<and> (setItem_throws st written \<longrightarrow> getAll (snd (update i n ins st)) = getAll st)))"
proof (intro conjI impI)
  assume absent: "i \<notin> id ` set (getAll st)"
  then have "findIndex (\<lambda>p. id p = i) (getAll st) = None"
    by (auto simp: findIndex_None_iff)
  then show "update i n ins st = (False, st)"
    by (simp add: update_def)
  from absent have "length (filter (\<lambda>p. id p \<noteq> i) (getAll st)) = length (getAll st)"
    by (auto simp: filter_length_eq_iff)
  then show "delete i st = (False, st)"
    by (simp add: delete_def Let_def)
next
  assume "i \<in> id ` set (getAll st)"
  then have "findIndex (\<lambda>p. id p = i) (getAll st) \<noteq> None"
    by (auto simp: findIndex_None_iff)
  then obtain k where k: "findIndex (\<lambda>p. id p = i) (getAll st) = Some k"
    by auto
  from findIndex_Some [OF k] have kl: "k < length (getAll st)" and kid: "id (getAll st ! k) = i"
    and first: "\<forall>j < k. id (getAll st ! j) \<noteq> i"
    by auto
  let ?new = "(getAll st)[k := (getAll st ! k)\<lparr>name := trim n, instruction := trim ins\<rparr>]"
  have upd: "update i n ins st = (True, setSavedPrompts ?new st)"
    using k by (simp add: update_def Let_def)
  have took: "\<not> setItem_throws st ?new \<Longrightarrow> getAll (setSavedPrompts ?new st) = ?new"
    by (simp add: getAll_def getSavedPrompts_def setSavedPrompts_def)
  have threw: "setItem_throws st ?new \<Longrightarrow> getAll (setSavedPrompts ?new st) = getAll st"
    by (simp add: getAll_def getSavedPrompts_def setSavedPrompts_def)
  have calls: "setItem_calls (setSavedPrompts ?new st) = Suc (setItem_calls st)"
    by (simp add: setSavedPrompts_def)
  have "id (getAll st ! k) = i
         \<and> (\<forall>j < k. id (getAll st ! j) \<noteq> i)
         \<and> fst (update i n ins st)
         \<and> setItem_calls (snd (update i n ins st)) = Suc (setItem_calls st)
         \<and> length ?new = length (getAll st)
         \<and> name (?new ! k) = trim n
         \<and> instruction (?new ! k) = trim ins
         \<and> id (?new ! k) = i
         \<and> (\<forall>j < length (getAll st). j \<noteq> k \<longrightarrow> ?new ! j = getAll st ! j)
         \<and> (\<not> setItem_throws st ?new \<longrightarrow> getAll (snd (update i n ins st)) = ?new)
         \<and> (setItem_throws st ?new \<longrightarrow> getAll (snd (update i n ins st)) = getAll st)"
    using kl kid first took threw by (simp add: upd calls)
  with kl show "\<exists>k < length (getAll st). \<exists>written.
         id (getAll st ! k) = i
         \<and> (\<forall>j < k. id (getAll st ! j) \<noteq> i)
         \<and> fst (update i n ins st)
         \<and> setItem_calls (snd (update i n ins st)) = Suc (setItem_calls st)
         \<and> length written = length (getAll st)
         \<and> name (written ! k) = trim n
         \<and> instruction (written ! k) = trim ins
         \<and> id (written ! k) = i
         \<and> (\<forall>j < length (getAll st). j \<noteq> k \<longrightarrow> written ! j = getAll st ! j)
         \<and> (\<not> setItem_throws st written \<longrightarrow> getAll (snd (update i n ins st)) = written)
         \<and> (setItem_throws st written \<longrightarrow> getAll (snd (update i n ins st)) = getAll st)"
    by blast
qed

theorem promptManager_update_delete_witness:
  "js ''zz'' \<notin> id ` set (getAll two_prompts)
   \<and> update (js ''zz'') (js '' Short '') (js '' Shorten it. '') two_prompts = (False, two_prompts)
   \<and> delete (js ''zz'') two_prompts = (False, two_prompts)
   \<and> js ''b2'' \<in> id ` set (getAll two_prompts)
   \<and> fst (update (js ''b2'') (js '' Short '') (js '' Shorten it. '') two_prompts)
   \<and> getAll (snd (update (js ''b2'') (js '' Short '') (js '' Shorten it. '') two_prompts))
       = [\<lparr>id = js ''a1'', name = js ''Fix Grammar'', instruction = js ''Fix errors.''\<rparr>,
          \<lparr>id = js ''b2'', name = js ''Short'', instruction = js ''Shorten it.''\<rparr>]
   \<and> js ''b2'' \<in> id ` set (getAll full_storage)
   \<and> fst (update (js ''b2'') (js '' Short '') (js '' Shorten it. '') full_storage)
   \<and> getAll (snd (update (js ''b2'') (js '' Short '') (js '' Shorten it. '') full_storage))
       = getAll full_storage"
proof -
  let ?a = "\<lparr>id = js ''a1'', name = js ''Fix Grammar'', instruction = js ''Fix errors.''\<rparr>"
  let ?b = "\<lparr>id = js ''b2'', name = js ''Summarize'', instruction = js ''Be brief.''\<rparr>"
  let ?b' = "\<lparr>id = js ''b2'', name = js ''Short'', instruction = js ''Shorten it.''\<rparr>"
  let ?u = "update (js ''b2'') (js '' Short '') (js '' Shorten it. '')"
  have all: "getAll two_prompts = [?a, ?b]"
    by (simp add: getAll_def getSavedPrompts_def two_prompts_def)
  have all': "getAll full_storage = [?a, ?b]"
    by (simp add: getAll_def getSavedPrompts_def two_prompts_def full_storage_def)
  have ids: "js ''a1'' \<noteq> js ''b2''" "js ''zz'' \<noteq> js ''a1''" "js ''zz'' \<noteq> js ''b2''"
    by (simp_all add: js_def)
  have tn: "trim (js '' Short '') = js ''Short''" and ti: "trim (js '' Shorten it. '') = js ''Shorten it.''"
    by code_simp+
  have absent: "js ''zz'' \<notin> id ` set (getAll two_prompts)"
    using ids by (simp add: all)
  have present: "js ''b2'' \<in> id ` set (getAll two_prompts)"
    by (simp add: all)
  have present': "js ''b2'' \<in> id ` set (getAll full_storage)"
    by (simp add: all')
  from promptManager_update_delete
         [of "js ''zz''" two_prompts "js '' Short ''" "js '' Shorten it. ''"] absent
  have a: "update (js ''zz'') (js '' Short '') (js '' Shorten it. '') two_prompts
             = (False, two_prompts)
           \<and> delete (js ''zz'') two_prompts = (False, two_prompts)"
    by blast
  have shape: "written = [?a, ?b']"
    if "k < length [?a, ?b]" "id ([?a, ?b] ! k) = js ''b2''" "length written = length [?a, ?b]"
      "name (written ! k) = trim (js '' Short '')"
      "instruction (written ! k) = trim (js '' Shorten it. '')"
      "id (written ! k) = js ''b2''"
      "\<forall>j < length [?a, ?b]. j \<noteq> k \<longrightarrow> written ! j = [?a, ?b] ! j"
    for k and written :: "prompt list"
  proof -
    from that(1,2) ids have k: "k = 1"
      by (cases k) auto
    from that(3) obtain x y where w: "written = [x, y]"
      by (cases written; cases "tl written") auto
    from that(7) k w have "x = ?a"
      by auto
    moreover from that(4,5,6) k w have "y = ?b'"
      by (simp add: tn ti)
    ultimately show ?thesis
      using w by simp
  qed
  from promptManager_update_delete
         [of "js ''b2''" two_prompts "js '' Short ''" "js '' Shorten it. ''"] present
  obtain k written where
    w: "k < length (getAll two_prompts)" "id (getAll two_prompts ! k) = js ''b2''"
      "length written = length (getAll two_prompts)"
      "name (written ! k) = trim (js '' Short '')"
      "instruction (written ! k) = trim (js '' Shorten it. '')"
      "id (written ! k) = js ''b2''"
      "\<forall>j < length (getAll two_prompts). j \<noteq> k \<longrightarrow> written ! j = getAll two_prompts ! j"
    and r: "fst (?u two_prompts)"
      "\<not> setItem_throws two_prompts written \<longrightarrow> getAll (snd (?u two_prompts)) = written"
    by blast
  from shape [of k written] w have "written = [?a, ?b']"
    by (simp add: all)
  moreover have "\<not> setItem_throws two_prompts written"
    by (simp add: two_prompts_def accepting_def)
  ultimately have b: "getAll (snd (?u two_prompts)) = [?a, ?b']"
    using r by simp
  from promptManager_update_delete
         [of "js ''b2''" full_storage "js '' Short ''" "js '' Shorten it. ''"] present'
  obtain k' written' where
    r': "fst (?u full_storage)"
      "setItem_throws full_storage written' \<longrightarrow> getAll (snd (?u full_storage)) = getAll full_storage"
    by blast
  moreover have "setItem_throws full_storage written'"
    by (simp add: full_storage_def refusing_def)
  ultimately have c: "getAll (snd (?u full_storage)) = getAll full_storage"
    by simp
  from absent a present r(1) b present' r'(1) c show ?thesis
    by blast
qed

text \<open>
  When \<open>localStorage.setItem\<close> throws, \<open>update\<close> on a present id returns true and the saved
  prompt keeps its old name.
\<close>

theorem promptManager_update_counterexample:
  "js ''b2'' \<in> id ` set (getAll full_storage)
   \<and> fst (update (js ''b2'') (js '' Short '') (js '' Shorten it. '') full_storage)
   \<and> map name (getAll (snd (update (js ''b2'') (js '' Short '') (js '' Shorten it. '') full_storage)))
       = [js ''Fix Grammar'', js ''Summarize'']
   \<and> trim (js '' Short '') = js ''Short''"
  by code_simp

end
